theory Spec2Isabelle
  imports Complex_Main
begin

section \<open>Asynchronous generators as finite traces\<close>

text \<open>
  An \<^verbatim>\<open>AsyncGenerator<T>\<close> is modelled by what a consumer observes when it keeps
  calling \<^verbatim>\<open>next()\<close>: a value and the generator that remains (\<open>Yield\<close>), the end of
  the sequence (\<open>Done\<close>), or a rejection (\<open>Throw\<close>), after which the generator is
  finished. A pull is one pattern match on the head of the trace, so the part of a trace
  that a loop leaves behind is exactly what it has not pulled.
\<close>

datatype error = Thrown string | TypeError string

datatype 'a gen = Done | Yield 'a "'a gen" | Throw error

text \<open>A user callback either returns a value or throws.\<close>

type_synonym ('a, 'b) callback = "'a \<Rightarrow> error + 'b"

definition returns :: "('a \<Rightarrow> 'b) \<Rightarrow> ('a, 'b) callback" where
  "returns f = (\<lambda>x. Inr (f x))"

subsection \<open>Source adapter and sink of \<^verbatim>\<open>index.ts\<close>\<close>

text \<open>\<^verbatim>\<open>arrayGenerator\<close>: \<^verbatim>\<open>for (const item of source) yield item\<close>.\<close>

fun arrayGenerator :: "'a list \<Rightarrow> 'a gen" where
  "arrayGenerator [] = Done"
| "arrayGenerator (item # source) = Yield item (arrayGenerator source)"

text \<open>
  \<^verbatim>\<open>result\<close>: \<^verbatim>\<open>res = []; for await (item of source) res.push(item); return res\<close>.
  A rejection of the source rejects the promise that \<^verbatim>\<open>result\<close> returns.
\<close>

fun result_loop :: "'a list \<Rightarrow> 'a gen \<Rightarrow> error + 'a list" where
  "result_loop res Done = Inr res"
| "result_loop res (Yield item source) = result_loop (res @ [item]) source"
| "result_loop res (Throw e) = Inl e"

definition result :: "'a gen \<Rightarrow> error + 'a list" where
  "result source = result_loop [] source"

subsection \<open>Transformers of \<^verbatim>\<open>index.ts\<close>\<close>

text \<open>\<^verbatim>\<open>map\<close>: \<^verbatim>\<open>for await (item of source) yield fn(item)\<close>; nothing catches a throwing \<^verbatim>\<open>fn\<close>.\<close>

fun map_gen :: "'a gen \<Rightarrow> ('a, 'b) callback \<Rightarrow> 'b gen" where
  "map_gen Done fn = Done"
| "map_gen (Yield item source) fn =
     (case fn item of Inl e \<Rightarrow> Throw e | Inr v \<Rightarrow> Yield v (map_gen source fn))"
| "map_gen (Throw e) fn = Throw e"

text \<open>
  \<^verbatim>\<open>chunk\<close>: the buffer grows by one item per pull and is emitted when
  \<^verbatim>\<open>buffer.length === size\<close>; what is left when the source ends is emitted if it is
  non-empty. \<^verbatim>\<open>size\<close> is a JavaScript number, here an integer.
\<close>

fun chunk_loop :: "int \<Rightarrow> 'a list \<Rightarrow> 'a gen \<Rightarrow> 'a list gen" where
  "chunk_loop sz buffer (Yield item source) =
     (let buffer' = buffer @ [item]
      in if int (length buffer') = sz
         then Yield buffer' (chunk_loop sz [] source)
         else chunk_loop sz buffer' source)"
| "chunk_loop sz buffer Done = (if length buffer \<noteq> 0 then Yield buffer Done else Done)"
| "chunk_loop sz buffer (Throw e) = Throw e"

definition chunk :: "'a gen \<Rightarrow> int \<Rightarrow> 'a list gen" where
  "chunk source sz = chunk_loop sz [] source"

text \<open>
  \<^verbatim>\<open>take\<close>: items are pushed to \<^verbatim>\<open>res\<close> and the loop breaks when
  \<^verbatim>\<open>res.length === count\<close>, tested after the push; then \<^verbatim>\<open>yield* res\<close>.
  The loop returns \<^verbatim>\<open>res\<close> together with the part of the source it has not pulled.
\<close>

fun take_loop :: "int \<Rightarrow> 'a list \<Rightarrow> 'a gen \<Rightarrow> error + ('a list \<times> 'a gen)" where
  "take_loop count res (Yield item source) =
     (let res' = res @ [item]
      in if int (length res') = count then Inr (res', source)
         else take_loop count res' source)"
| "take_loop count res Done = Inr (res, Done)"
| "take_loop count res (Throw e) = Inl e"

definition take_gen :: "'a gen \<Rightarrow> int \<Rightarrow> 'a gen" where
  "take_gen source count =
     (case take_loop count [] source of
        Inl e \<Rightarrow> Throw e
      | Inr (res, unpulled) \<Rightarrow> arrayGenerator res)"

definition take_unpulled :: "'a gen \<Rightarrow> int \<Rightarrow> error + 'a gen" where
  "take_unpulled source count =
     (case take_loop count [] source of
        Inl e \<Rightarrow> Inl e
      | Inr (res, unpulled) \<Rightarrow> Inr unpulled)"

text \<open>
  \<^verbatim>\<open>unique\<close>: a \<^verbatim>\<open>Set\<close> of the items seen; an item is emitted and added when the set
  does not have it. \<^verbatim>\<open>Set.prototype.has\<close> compares with SameValueZero, which depends on
  what kind of value an item is, so the items are JavaScript values: the primitive values,
  compared by what they are, and references to arrays, objects and functions, compared by
  identity (two arrays with equal elements are two references). Among the numbers, the
  two zeros are the same value for SameValueZero, and so is \<^verbatim>\<open>NaN\<close> with itself;
  \<open>Finite r\<close> stands for the finite number \<open>r \<noteq> 0\<close>.
\<close>

datatype jsnumber = NaN | PosZero | NegZero | Finite real | PosInfinity | NegInfinity

datatype jsvalue =
    Undefined_value
  | Null_value
  | Boolean bool
  | String string
  | Symbol nat
  | Number jsnumber
  | BigInt int
  | Reference nat

fun number_sameValueZero :: "jsnumber \<Rightarrow> jsnumber \<Rightarrow> bool" where
  "number_sameValueZero PosZero NegZero = True"
| "number_sameValueZero NegZero PosZero = True"
| "number_sameValueZero x y = (x = y)"

fun sameValueZero :: "jsvalue \<Rightarrow> jsvalue \<Rightarrow> bool" where
  "sameValueZero (Number x) (Number y) = number_sameValueZero x y"
| "sameValueZero x y = (x = y)"

text \<open>
  A \<^verbatim>\<open>Set\<close> is the list of its members in insertion order. \<^verbatim>\<open>has\<close> looks for a member
  that is the same value as its argument; \<^verbatim>\<open>add\<close> does nothing when there is one, and
  otherwise appends the value, with \<open>-0\<close> stored as \<open>+0\<close>.
\<close>

type_synonym jsset = "jsvalue list"

definition set_has :: "jsset \<Rightarrow> jsvalue \<Rightarrow> bool" where
  "set_has S v = list_ex (\<lambda>e. sameValueZero e v) S"

definition set_add :: "jsset \<Rightarrow> jsvalue \<Rightarrow> jsset" where
  "set_add S v =
     (if set_has S v then S
      else S @ [if v = Number NegZero then Number PosZero else v])"

fun unique_loop :: "jsset \<Rightarrow> jsvalue gen \<Rightarrow> jsvalue gen" where
  "unique_loop res (Yield item source) =
     (if \<not> set_has res item then Yield item (unique_loop (set_add res item) source)
      else unique_loop res source)"
| "unique_loop res Done = Done"
| "unique_loop res (Throw e) = Throw e"

definition unique :: "jsvalue gen \<Rightarrow> jsvalue gen" where
  "unique source = unique_loop [] source"

text \<open>\<^verbatim>\<open>collect\<close>: drain the source into \<^verbatim>\<open>res\<close>, then \<^verbatim>\<open>yield res\<close>.\<close>

fun collect_loop :: "'a list \<Rightarrow> 'a gen \<Rightarrow> 'a list gen" where
  "collect_loop res (Yield item source) = collect_loop (res @ [item]) source"
| "collect_loop res Done = Yield res Done"
| "collect_loop res (Throw e) = Throw e"

definition collect :: "'a gen \<Rightarrow> 'a list gen" where
  "collect source = collect_loop [] source"

text \<open>
  \<^verbatim>\<open>join\<close>: drain the source into \<^verbatim>\<open>res\<close>, then \<^verbatim>\<open>yield res.join(separator)\<close>,
  the separator defaulting to the empty string. \<^verbatim>\<open>Array.prototype.join\<close> on strings
  puts the separator between consecutive elements.
\<close>

fun array_join :: "string list \<Rightarrow> string \<Rightarrow> string" where
  "array_join [] separator = ''''"
| "array_join [s] separator = s"
| "array_join (s # t # rest) separator = s @ separator @ array_join (t # rest) separator"

fun join_loop :: "string list \<Rightarrow> string \<Rightarrow> string gen \<Rightarrow> string gen" where
  "join_loop res separator (Yield item source) = join_loop (res @ [item]) separator source"
| "join_loop res separator Done = Yield (array_join res separator) Done"
| "join_loop res separator (Throw e) = Throw e"

definition join :: "string gen \<Rightarrow> string option \<Rightarrow> string gen" where
  "join source separator =
     join_loop [] (case separator of None \<Rightarrow> '''' | Some s \<Rightarrow> s) source"

section \<open>The error policy of a stage\<close>

text \<open>
  Modelled from the spec: the \<^verbatim>\<open>ErrorPolicy\<close> (\<^verbatim>\<open>ErrorMap\<close> of the module \<^verbatim>\<open>./errors\<close>) and
  the \<^verbatim>\<open>map\<close> of the module \<^verbatim>\<open>./transformers\<close> that takes one; \<^verbatim>\<open>pipeline.ts\<close> calls
  \<^verbatim>\<open>map(generator, fn, errorMap)\<close> but neither module is among the sources.
  Given the triggering input item and the thrown error, a policy yields one of: skip
  (drop the item, continue), substitute (emit a replacement output item, continue),
  propagate (rethrow; the pipeline terminates with that error). Absence of a policy is
  an implicit propagate policy.
\<close>

datatype 'b outcome = skip | substitute 'b | propagate

type_synonym ('a, 'b) ErrorPolicy = "'a \<Rightarrow> error \<Rightarrow> 'b outcome"

text \<open>
  Modelled from the spec: consulting the policy attached to a stage; absence of a policy
  is equivalent to an implicit propagate policy.
\<close>

definition consult :: "('a, 'b) ErrorPolicy option \<Rightarrow> 'a \<Rightarrow> error \<Rightarrow> 'b outcome" where
  "consult errorMap item e = (case errorMap of None \<Rightarrow> propagate | Some policy \<Rightarrow> policy item e)"

text \<open>
  Modelled from the spec: \<^verbatim>\<open>map(fn)\<close> with a policy, the transformer of \<^verbatim>\<open>./transformers\<close>
  behind the \<^verbatim>\<open>map\<close> method of the facade. Its output is \<^verbatim>\<open>fn(item)\<close> for each input,
  in order; on a failure of \<^verbatim>\<open>fn\<close> the policy is consulted.
\<close>

fun map_policy :: "'a gen \<Rightarrow> ('a, 'b) callback \<Rightarrow> ('a, 'b) ErrorPolicy option \<Rightarrow> 'b gen" where
  "map_policy Done fn errorMap = Done"
| "map_policy (Yield item source) fn errorMap =
     (case fn item of
        Inr v \<Rightarrow> Yield v (map_policy source fn errorMap)
      | Inl e \<Rightarrow>
          (case consult errorMap item e of
             skip \<Rightarrow> map_policy source fn errorMap
           | substitute v \<Rightarrow> Yield v (map_policy source fn errorMap)
           | propagate \<Rightarrow> Throw e))"
| "map_policy (Throw e) fn errorMap = Throw e"

text \<open>Modelled from the spec: the policy that answers skip for every item and error.\<close>

definition skip_policy :: "('a, 'b) ErrorPolicy" where
  "skip_policy = (\<lambda>item e. skip)"

section \<open>Grouping records by a field\<close>

text \<open>
  Both grouping functions index a plain object (\<^verbatim>\<open>{}\<close>) with the value \<^verbatim>\<open>val[key]\<close> of a
  record. That value is either \<^verbatim>\<open>undefined\<close> (the record has no such field) or a defined
  value, given here by the property key it converts to when it is used as an index (a
  string is its own key, a number its decimal form); \<^verbatim>\<open>undefined\<close> converts to the key
  \<^verbatim>\<open>"undefined"\<close>. The model takes the field access \<open>field\<close> as the function from records to
  these values.
\<close>

datatype field_value = Undefined | Key string

fun to_property_key :: "field_value \<Rightarrow> string" where
  "to_property_key Undefined = ''undefined''"
| "to_property_key (Key s) = s"

text \<open>
  The accumulator \<^verbatim>\<open>acc\<close> starts as \<^verbatim>\<open>{}\<close>: an object with no own property whose
  prototype is \<^verbatim>\<open>Object.prototype\<close>. Its own properties are a map from keys to arrays of
  records. Reading \<^verbatim>\<open>acc[k]\<close> gives the own array when there is one; otherwise it gives
  what \<^verbatim>\<open>Object.prototype\<close> has under \<open>k\<close>, a function or object that is truthy and has
  no \<^verbatim>\<open>push\<close>, or \<^verbatim>\<open>undefined\<close> when that has nothing either.
\<close>

definition object_prototype_keys :: "string list" where
  "object_prototype_keys =
     [''constructor'', ''hasOwnProperty'', ''isPrototypeOf'', ''propertyIsEnumerable'',
      ''toLocaleString'', ''toString'', ''valueOf'', ''__proto__'',
      ''__defineGetter__'', ''__defineSetter__'', ''__lookupGetter__'', ''__lookupSetter__'']"

type_synonym 'r groups = "string \<rightharpoonup> 'r list"

datatype 'r property = Absent | Array "'r list" | Inherited

definition get_property :: "'r groups \<Rightarrow> string \<Rightarrow> 'r property" where
  "get_property acc k =
     (case acc k of
        Some items \<Rightarrow> Array items
      | None \<Rightarrow> if k \<in> set object_prototype_keys then Inherited else Absent)"

text \<open>
  The callback that \<^verbatim>\<open>groupBy\<close> of \<^verbatim>\<open>pipeline.ts\<close> passes to \<^verbatim>\<open>reduce\<close>:
  \<^verbatim>\<open>k = val[key]; if (!acc[k]) acc[k] = []; acc[k].push(val); return acc\<close>.
  Only \<^verbatim>\<open>undefined\<close> is falsy among the values \<^verbatim>\<open>acc[k]\<close> can have; \<^verbatim>\<open>push\<close> on an inherited
  value is a TypeError.
\<close>

definition groupBy_fn :: "('r \<Rightarrow> field_value) \<Rightarrow> 'r groups \<Rightarrow> 'r \<Rightarrow> error + 'r groups" where
  "groupBy_fn field acc val =
     (let k = to_property_key (field val);
          acc' = (case get_property acc k of Absent \<Rightarrow> acc(k \<mapsto> []) | _ \<Rightarrow> acc)
      in case get_property acc' k of
           Array items \<Rightarrow> Inr (acc'(k \<mapsto> items @ [val]))
         | Inherited \<Rightarrow> Inl (TypeError ''acc[k].push is not a function'')
         | Absent \<Rightarrow> Inl (TypeError ''acc[k] is undefined''))"

text \<open>
  Modelled from the spec: \<^verbatim>\<open>reduce(fn, initial)\<close> of the module \<^verbatim>\<open>./transformers\<close>, which is
  not among the sources: a sequential left fold, \<open>acc\<^sub>0 = initial\<close>,
  \<open>acc\<^sub>i = fn(acc\<^sub>i\<^sub>-\<^sub>1, item\<^sub>i)\<close>, whose single final accumulator is emitted once the upstream
  exhausts. \<^verbatim>\<open>groupBy\<close> passes no error policy, so a failure of the callback propagates.
\<close>

fun reduce_fn_loop :: "('b \<Rightarrow> 'a \<Rightarrow> error + 'b) \<Rightarrow> 'b \<Rightarrow> 'a gen \<Rightarrow> 'b gen" where
  "reduce_fn_loop fn acc (Yield item source) =
     (case fn acc item of Inl e \<Rightarrow> Throw e | Inr acc' \<Rightarrow> reduce_fn_loop fn acc' source)"
| "reduce_fn_loop fn acc Done = Yield acc Done"
| "reduce_fn_loop fn acc (Throw e) = Throw e"

text \<open>
  Modelled from the spec: the call \<^verbatim>\<open>reduce(generator, fn, initialValue)\<close>, which starts the
  fold with \<open>acc\<^sub>0 = initial\<close>.
\<close>

definition reduce_fn :: "'a gen \<Rightarrow> ('b \<Rightarrow> 'a \<Rightarrow> error + 'b) \<Rightarrow> 'b \<Rightarrow> 'b gen" where
  "reduce_fn source fn initialValue = reduce_fn_loop fn initialValue source"

text \<open>\<^verbatim>\<open>groupBy\<close> of \<^verbatim>\<open>pipeline.ts\<close>: \<^verbatim>\<open>generator = reduce(generator, <callback>, {})\<close>.\<close>

definition groupBy :: "'r gen \<Rightarrow> ('r \<Rightarrow> field_value) \<Rightarrow> 'r groups gen" where
  "groupBy source field = reduce_fn source (groupBy_fn field) Map.empty"

text \<open>
  \<^verbatim>\<open>reduce\<close> of \<^verbatim>\<open>index.ts\<close>, which groups by a key itself: items whose value is
  \<^verbatim>\<open>undefined\<close> are passed over when \<^verbatim>\<open>ignoreUndefined\<close> is set; a value that is not
  \<^verbatim>\<open>in acc\<close> starts a group; otherwise the item is pushed to \<^verbatim>\<open>acc[value]\<close>. The operator
  \<^verbatim>\<open>in\<close> looks at own and inherited properties alike.
\<close>

fun reduce_loop :: "('r \<Rightarrow> field_value) \<Rightarrow> bool \<Rightarrow> 'r groups \<Rightarrow> 'r gen \<Rightarrow> 'r groups gen" where
  "reduce_loop field ignoreUndefined acc (Yield item source) =
     (let val = field item
      in if ignoreUndefined \<and> val = Undefined
         then reduce_loop field ignoreUndefined acc source
         else if get_property acc (to_property_key val) = Absent
         then reduce_loop field ignoreUndefined (acc(to_property_key val \<mapsto> [item])) source
         else (case get_property acc (to_property_key val) of
                 Array items \<Rightarrow>
                   reduce_loop field ignoreUndefined
                     (acc(to_property_key val \<mapsto> items @ [item])) source
               | Inherited \<Rightarrow> Throw (TypeError ''acc[value].push is not a function'')
               | Absent \<Rightarrow> Throw (TypeError ''acc[value] is undefined'')))"
| "reduce_loop field ignoreUndefined acc Done = Yield acc Done"
| "reduce_loop field ignoreUndefined acc (Throw e) = Throw e"

definition reduce :: "'r gen \<Rightarrow> ('r \<Rightarrow> field_value) \<Rightarrow> bool \<Rightarrow> 'r groups gen" where
  "reduce source field ignoreUndefined = reduce_loop field ignoreUndefined Map.empty source"

text \<open>
  The mapping as the specification words it, for comparison with what the code builds:
  every key observed in the input is sent to the input records that have this key, in
  arrival order.
\<close>

definition grouping :: "('r \<Rightarrow> field_value) \<Rightarrow> 'r list \<Rightarrow> 'r groups" where
  "grouping field xs =
     (\<lambda>k. if k \<in> set (map (\<lambda>x. to_property_key (field x)) xs)
          then Some (filter (\<lambda>x. to_property_key (field x) = k) xs) else None)"

section \<open>The pipeline facade of \<^verbatim>\<open>pipeline.ts\<close>\<close>

text \<open>
  \<^verbatim>\<open>pipeline(source)\<close> allocates one object whose methods close over the variables
  \<^verbatim>\<open>generator\<close> and \<^verbatim>\<open>forkedGenerator\<close>. Objects are compared by identity, so the model
  keeps them in a heap (a list of closure records) and a reference is an index into it.
  The transformers come from the module \<^verbatim>\<open>./transformers\<close>; the methods only apply them
  to the current generator, so they are a parameter of the model: \<open>'g\<close> is the type of
  generators and \<open>'v\<close> the type of the arguments that are passed through (callbacks,
  error maps, numbers, strings).
\<close>

record ('g, 'v) transformers =
  split_t :: "'g \<Rightarrow> 'v \<Rightarrow> 'v option \<Rightarrow> 'g"
  join_t :: "'g \<Rightarrow> 'v option \<Rightarrow> 'g"
  map_t :: "'g \<Rightarrow> 'v \<Rightarrow> 'v option \<Rightarrow> 'g"
  filter_t :: "'g \<Rightarrow> 'v \<Rightarrow> 'v option \<Rightarrow> 'g"
  chunk_t :: "'g \<Rightarrow> 'v \<Rightarrow> 'g"
  take_t :: "'g \<Rightarrow> 'v \<Rightarrow> 'g"
  flat_t :: "'g \<Rightarrow> 'g"
  collect_t :: "'g \<Rightarrow> 'g"
  tap_t :: "'g \<Rightarrow> 'v \<Rightarrow> 'v option \<Rightarrow> 'g"
  unique_t :: "'g \<Rightarrow> 'g"
  reduce_t :: "'g \<Rightarrow> 'v \<Rightarrow> 'v \<Rightarrow> 'v option \<Rightarrow> 'g"
  validate_t :: "'g \<Rightarrow> 'v \<Rightarrow> 'v \<Rightarrow> 'g"
  groupBy_callback :: "'v \<Rightarrow> 'v"
  empty_object :: "'v"

record ('g, 'k) closure =
  generator :: "'g"
  forkedGenerator :: "'k option"

type_synonym ('g, 'k) heap = "('g, 'k) closure list"

text \<open>
  The body shared by the chaining methods:
  \<^verbatim>\<open>generator = <transformer>(generator, ...); return this\<close>.
  The assignment changes the closure of the object the method belongs to; the value
  returned is the reference the method was called on.
\<close>

definition assign_generator ::
  "('g \<Rightarrow> 'g) \<Rightarrow> nat \<Rightarrow> ('g, 'k) heap \<Rightarrow> ('g, 'k) heap \<times> nat" where
  "assign_generator wrap this h =
     (h[this := (h ! this)\<lparr>generator := wrap (generator (h ! this))\<rparr>], this)"

text \<open>The chaining calls with their arguments, one per method that ends in \<^verbatim>\<open>return this\<close>.\<close>

datatype 'v chaining =
    Split 'v "'v option"
  | Join "'v option"
  | Map 'v "'v option"
  | Filter 'v "'v option"
  | Chunk 'v
  | Take 'v
  | Flat
  | FlatMap 'v
  | Collect
  | Tap 'v "'v option"
  | Unique
  | Reduce 'v 'v "'v option"
  | GroupBy 'v
  | Validate 'v 'v

text \<open>The right-hand side that each method assigns to \<^verbatim>\<open>generator\<close>.\<close>

fun wrapped :: "('g, 'v) transformers \<Rightarrow> 'v chaining \<Rightarrow> 'g \<Rightarrow> 'g" where
  "wrapped T (Split separator limit) g = split_t T g separator limit"
| "wrapped T (Join delimiter) g = join_t T g delimiter"
| "wrapped T (Map fn errorMap) g = map_t T g fn errorMap"
| "wrapped T (Filter fn errorMap) g = filter_t T g fn errorMap"
| "wrapped T (Chunk sz) g = chunk_t T g sz"
| "wrapped T (Take count) g = take_t T g count"
| "wrapped T Flat g = flat_t T g"
| "wrapped T (FlatMap fn) g = flat_t T (map_t T g fn None)"
| "wrapped T Collect g = collect_t T g"
| "wrapped T (Tap fn errorMap) g = tap_t T g fn errorMap"
| "wrapped T Unique g = unique_t T g"
| "wrapped T (Reduce fn initialValue errorMap) g = reduce_t T g fn initialValue errorMap"
| "wrapped T (GroupBy key) g = reduce_t T g (groupBy_callback T key) (empty_object T) None"
| "wrapped T (Validate fn errFn) g = validate_t T g fn errFn"

definition call :: "('g, 'v) transformers \<Rightarrow> 'v chaining \<Rightarrow> nat \<Rightarrow> ('g, 'k) heap
    \<Rightarrow> ('g, 'k) heap \<times> nat" where
  "call T c this h = assign_generator (wrapped T c) this h"



section \<open>The fork subsystem\<close>

text \<open>
  Modelled from the spec: the module \<^verbatim>\<open>./fork\<close> (\<^verbatim>\<open>createForkableGenerator\<close> and the
  \<^verbatim>\<open>fork()\<close> of the object it returns), which \<^verbatim>\<open>pipeline.ts\<close> imports and which is not among
  the sources. The shared fork state holds the single upstream sequence, an ordered
  buffer of the items pulled but not yet consumed by every handle, each slot tagged with
  its pending-reader count, the handles, each a read cursor, and an exhaustion flag.
  Cursors are absolute positions in the upstream sequence; \<open>evicted\<close> counts the slots
  evicted from the front of the buffer, so the slot under cursor \<open>c\<close> is the buffer entry
  \<open>c - evicted\<close>, and the write frontier is \<open>evicted + length slots\<close>. The upstream is the
  list of the items it will still yield, and \<open>pulls\<close> logs every pull made on it: the item
  it yielded, or \<open>None\<close> for the end of the sequence. The pending-reader count given to
  new slots is the number of handles at the time the shared state comes into use, which
  is the first pull; it is taken once (\<open>readers\<close>). Pulls are atomic steps of the
  single-threaded scheduler, so the gate around the upstream pull has no state of its own.
\<close>

record 'a fork_state =
  upstream :: "'a list"
  pulls :: "'a option list"
  slots :: "('a \<times> nat) list"
  evicted :: nat
  cursors :: "nat list"
  exhausted :: bool
  readers :: "nat option"

text \<open>
  Modelled from the spec: \<^verbatim>\<open>createForkableGenerator\<close> wraps one sequence; nothing has been
  pulled and there is no handle yet.
\<close>

definition createForkableGenerator :: "'a list \<Rightarrow> 'a fork_state" where
  "createForkableGenerator source =
     \<lparr>upstream = source, pulls = [], slots = [], evicted = 0, cursors = [],
      exhausted = False, readers = None\<rparr>"

text \<open>
  Modelled from the spec: \<^verbatim>\<open>ForkFactory.fork()\<close>, callable repeatedly; each call yields a
  new independent branch, here the index of its handle. The new cursor is at the front of
  the buffer.
\<close>

definition forkable_fork :: "'a fork_state \<Rightarrow> nat \<times> 'a fork_state" where
  "forkable_fork st = (length (cursors st), st\<lparr>cursors := cursors st @ [evicted st]\<rparr>)"

text \<open>Modelled from the spec: the write frontier of the buffer.\<close>

definition frontier :: "'a fork_state \<Rightarrow> nat" where
  "frontier st = evicted st + length (slots st)"

text \<open>
  Modelled from the spec: serving the unread item at the cursor of handle \<open>h\<close>: return it,
  advance the cursor, decrement the pending-reader count of the slot, and evict from the
  front of the buffer the slots whose count has reached zero.
\<close>

definition serve :: "nat \<Rightarrow> 'a fork_state \<Rightarrow> 'a option \<times> 'a fork_state" where
  "serve h st =
     (let c = cursors st ! h;
          i = c - evicted st;
          slots' = (slots st)[i := (fst (slots st ! i), snd (slots st ! i) - 1)]
      in (Some (fst (slots st ! i)),
          st\<lparr>slots := dropWhile (\<lambda>s. snd s = 0) slots',
             evicted := evicted st + length (takeWhile (\<lambda>s. snd s = 0) slots'),
             cursors := (cursors st)[h := c + 1]\<rparr>))"

text \<open>
  Modelled from the spec: extending the frontier: pull the upstream once and append the
  result to the buffer, tagged with the pending-reader count; the end of the upstream
  sets the exhaustion flag.
\<close>

definition extend :: "'a fork_state \<Rightarrow> 'a fork_state" where
  "extend st =
     (let n = (case readers st of None \<Rightarrow> length (cursors st) | Some n \<Rightarrow> n)
      in case upstream st of
           [] \<Rightarrow> st\<lparr>pulls := pulls st @ [None], exhausted := True, readers := Some n\<rparr>
         | item # rest \<Rightarrow>
             st\<lparr>upstream := rest, pulls := pulls st @ [Some item],
                slots := slots st @ [(item, n)], readers := Some n\<rparr>)"

text \<open>
  Modelled from the spec: one pull on handle \<open>h\<close>. If the buffer has an unread item at the
  cursor, it is served. If the cursor is at the write frontier, the upstream is pulled
  once and the new item is served; once the upstream is exhausted the handle signals the
  end without pulling again. A handle that does not exist, or whose slot is gone (which
  the spec leaves undefined), signals the end.
\<close>

definition next_branch :: "nat \<Rightarrow> 'a fork_state \<Rightarrow> 'a option \<times> 'a fork_state" where
  "next_branch h st =
     (if \<not> h < length (cursors st) then (None, st)
      else if evicted st \<le> cursors st ! h \<and> cursors st ! h < frontier st then serve h st
      else if cursors st ! h = frontier st \<and> \<not> exhausted st
           then (if exhausted (extend st) then (None, extend st) else serve h (extend st))
      else (None, st))"

text \<open>
  \<^verbatim>\<open>result()\<close> on the facade of a branch is \<^verbatim>\<open>result\<close> applied to the branch: it pulls until
  the branch signals the end. Each served pull lowers the number of items that the handle
  still has before it, so the loop terminates in every state.
\<close>

function result_branch_loop :: "nat \<Rightarrow> 'a list \<Rightarrow> 'a fork_state \<Rightarrow> 'a list \<times> 'a fork_state" where
  "result_branch_loop h res st =
     (case next_branch h st of
        (None, st') \<Rightarrow> (res, st')
      | (Some item, st') \<Rightarrow> result_branch_loop h (res @ [item]) st')"
  by pat_completeness auto
termination
proof (relation "measure (\<lambda>(h, res, st). length (upstream st) + (frontier st - cursors st ! h))",
    goal_cases)
  case 1
  show ?case by simp
next
  case (2 h res st x1 st' item)
  have kept: "length (takeWhile P xs) + length (dropWhile P xs) = length xs" for P and xs :: "('a \<times> nat) list"
    using takeWhile_dropWhile_id [of P xs] by (metis length_append)
  have served: "length (upstream (snd (serve h s))) = length (upstream s)
      \<and> frontier (snd (serve h s)) = frontier s
      \<and> (h < length (cursors s) \<longrightarrow> cursors (snd (serve h s)) ! h = Suc (cursors s ! h))" for s :: "'a fork_state"
    using kept [of "\<lambda>s. snd s = 0"] by (simp add: serve_def frontier_def Let_def)
  have extended: "upstream s \<noteq> [] \<Longrightarrow> length (upstream (extend s)) < length (upstream s)
      \<and> frontier (extend s) = Suc (frontier s) \<and> cursors (extend s) = cursors s" for s :: "'a fork_state"
    by (cases "upstream s") (simp_all add: extend_def frontier_def Let_def)
  have ended: "upstream s = [] \<Longrightarrow> exhausted (extend s)" for s :: "'a fork_state"
    by (simp add: extend_def Let_def)
  from 2 have nb: "next_branch h st = (Some item, st')" by simp
  show ?case
  proof (cases "h < length (cursors st)")
    case False
    with nb show ?thesis by (simp add: next_branch_def)
  next
    case h: True
    show ?thesis
    proof (cases "evicted st \<le> cursors st ! h \<and> cursors st ! h < frontier st")
      case True
      with nb h have "st' = snd (serve h st)" by (simp add: next_branch_def)
      with served [of st] h True show ?thesis by auto
    next
      case False
      with nb h have at: "cursors st ! h = frontier st" "\<not> exhausted st"
        "\<not> exhausted (extend st)" "st' = snd (serve h (extend st))"
        by (auto simp: next_branch_def split: if_splits)
      from at(3) ended have ne: "upstream st \<noteq> []" by blast
      from extended [OF ne] served [of "extend st"] h at show ?thesis by auto
    qed
  qed
qed

declare result_branch_loop.simps [simp del]

text \<open>\<^verbatim>\<open>result()\<close> on the branches listed, one after another.\<close>

fun drain_branches :: "nat list \<Rightarrow> 'a fork_state \<Rightarrow> 'a list list \<times> 'a fork_state" where
  "drain_branches [] st = ([], st)"
| "drain_branches (h # hs) st =
     (case result_branch_loop h [] st of
        (res, st') \<Rightarrow> (case drain_branches hs st' of (rs, st'') \<Rightarrow> (res # rs, st'')))"

text \<open>
  \<^verbatim>\<open>fork()\<close> of \<^verbatim>\<open>pipeline.ts\<close>: the forkable generator is created around the current
  generator on the first call and cached in \<^verbatim>\<open>forkedGenerator\<close>; every call returns a new
  facade around a fresh branch. The result is the branch and the closure of the facade
  that was forked.
\<close>

definition fork :: "('a list, 'a fork_state) closure \<Rightarrow> nat \<times> ('a list, 'a fork_state) closure" where
  "fork c =
     (let fg = (case forkedGenerator c of
                  None \<Rightarrow> createForkableGenerator (generator c)
                | Some fg \<Rightarrow> fg)
      in case forkable_fork fg of
           (branch, fg') \<Rightarrow> (branch, c\<lparr>forkedGenerator := Some fg'\<rparr>))"

text \<open>\<open>k\<close> calls of \<^verbatim>\<open>fork()\<close> on the same facade, with the branches in the order of creation.\<close>

fun fork_times :: "nat \<Rightarrow> ('a list, 'a fork_state) closure
    \<Rightarrow> nat list \<times> ('a list, 'a fork_state) closure" where
  "fork_times 0 c = ([], c)"
| "fork_times (Suc k) c =
     (case fork c of (branch, c') \<Rightarrow>
        (case fork_times k c' of (branches, c'') \<Rightarrow> (branch # branches, c'')))"

text \<open>The shared state after \<open>k\<close> forks of a fresh facade over the source \<open>xs\<close>.\<close>

definition forked :: "nat \<Rightarrow> 'a list \<Rightarrow> 'a fork_state" where
  "forked k xs =
     (case forkedGenerator (snd (fork_times k \<lparr>generator = xs, forkedGenerator = None\<rparr>)) of
        None \<Rightarrow> createForkableGenerator xs
      | Some st \<Rightarrow> st)"

text \<open>
  The invariant of the shared state for \<open>k\<close> handles over the source \<open>xs\<close>: the buffer is
  the stretch of \<open>xs\<close> between the evicted prefix and the frontier, each slot counting the
  handles that have not read it; the upstream is what lies beyond the frontier; the log of
  pulls is the prefix up to the frontier, closed by the end signal once exhausted.
\<close>

definition pending :: "nat list \<Rightarrow> nat \<Rightarrow> nat" where
  "pending cs i = length (filter (\<lambda>c. c \<le> i) cs)"

definition fork_inv :: "nat \<Rightarrow> 'a list \<Rightarrow> 'a fork_state \<Rightarrow> bool" where
  "fork_inv k xs st \<longleftrightarrow>
     length (cursors st) = k
     \<and> frontier st \<le> length xs
     \<and> upstream st = drop (frontier st) xs
     \<and> slots st = map (\<lambda>i. (xs ! i, pending (cursors st) i)) [evicted st..<frontier st]
     \<and> (\<forall>c \<in> set (cursors st). evicted st \<le> c \<and> c \<le> frontier st)
     \<and> pulls st = map Some (take (frontier st) xs) @ (if exhausted st then [None] else [])
     \<and> (exhausted st \<longrightarrow> frontier st = length xs)
     \<and> (readers st = None \<or> readers st = Some k)"

text \<open>
  Pulls interleaved between the branches: the handles listed pull once each, in this
  order. The trace records which handle obtained what; \<open>received h\<close> is what handle \<open>h\<close>
  has been given so far.
\<close>

fun pull_schedule :: "nat list \<Rightarrow> 'a fork_state \<Rightarrow> (nat \<times> 'a option) list \<times> 'a fork_state" where
  "pull_schedule [] st = ([], st)"
| "pull_schedule (h # hs) st =
     (case next_branch h st of
        (r, st') \<Rightarrow> (case pull_schedule hs st' of (trace, st'') \<Rightarrow> ((h, r) # trace, st'')))"

fun received :: "nat \<Rightarrow> (nat \<times> 'a option) list \<Rightarrow> 'a list" where
  "received h [] = []"
| "received h ((h', Some item) # trace) =
     (if h' = h then item # received h trace else received h trace)"
| "received h ((h', None) # trace) = received h trace"

section \<open>Draining a list source\<close>

lemma result_loop_arrayGenerator: "result_loop res (arrayGenerator xs) = Inr (res @ xs)"
  by (induction xs arbitrary: res) simp_all

lemma result_arrayGenerator: "result (arrayGenerator xs) = Inr xs"
  by (simp add: result_def result_loop_arrayGenerator)

lemma map_gen_returns: "map_gen (arrayGenerator xs) (returns f) = arrayGenerator (map f xs)"
  by (induction xs) (simp_all add: returns_def)

text \<open>
  C6: for every list and every function \<open>f\<close>, the pipeline \<^verbatim>\<open>fromArray(xs).map(f).result()\<close>
  returns the list obtained by applying \<open>f\<close> to each element of what
  \<^verbatim>\<open>fromArray(xs).result()\<close> returns, with the same length and order.
\<close>

theorem map_then_result_elementwise:
  "result (map_gen (arrayGenerator xs) (returns f))
     = map_sum id (map f) (result (arrayGenerator xs))"
  by (simp add: map_gen_returns result_arrayGenerator)

section \<open>chunk\<close>

lemma chunk_loop_groups:
  assumes "0 < n" "length buffer < n"
  shows "\<exists>gs. chunk_loop (int n) buffer (arrayGenerator xs) = arrayGenerator gs
              \<and> concat gs = buffer @ xs
              \<and> (\<forall>g \<in> set (butlast gs). length g = n)
              \<and> (gs \<noteq> [] \<longrightarrow> 0 < length (last gs) \<and> length (last gs) \<le> n)"
  using assms(2)
proof (induction xs arbitrary: buffer)
  case Nil
  show ?case
  proof (cases "buffer = []")
    case True
    then show ?thesis by (intro exI [of _ "[]"]) simp
  next
    case False
    with Nil show ?thesis by (intro exI [of _ "[buffer]"]) simp
  qed
next
  case (Cons x xs)
  show ?case
  proof (cases "Suc (length buffer) = n")
    case True
    from Cons.IH [of "[]"] assms(1) obtain gs where gs:
      "chunk_loop (int n) [] (arrayGenerator xs) = arrayGenerator gs"
      "concat gs = xs" "\<forall>g \<in> set (butlast gs). length g = n"
      "gs \<noteq> [] \<longrightarrow> 0 < length (last gs) \<and> length (last gs) \<le> n"
      by auto
    from True gs show ?thesis
      by (intro exI [of _ "(buffer @ [x]) # gs"]) (auto simp: Let_def)
  next
    case False
    with Cons.prems have "length (buffer @ [x]) < n" by simp
    from Cons.IH [OF this] obtain gs where gs:
      "chunk_loop (int n) (buffer @ [x]) (arrayGenerator xs) = arrayGenerator gs"
      "concat gs = (buffer @ [x]) @ xs" "\<forall>g \<in> set (butlast gs). length g = n"
      "gs \<noteq> [] \<longrightarrow> 0 < length (last gs) \<and> length (last gs) \<le> n"
      by auto
    from False gs show ?thesis
      by (intro exI [of _ gs]) (auto simp: Let_def)
  qed
qed

lemma length_concat_uniform:
  "\<forall>g \<in> set gs. length g = n \<Longrightarrow> length (concat gs) = length gs * n"
  by (induction gs) simp_all

lemma groups_length_concat:
  assumes "gs \<noteq> []" "\<forall>g \<in> set (butlast gs). length g = n"
  shows "length (concat gs) = (length gs - 1) * n + length (last gs)"
proof -
  have "concat gs = concat (butlast gs) @ last gs"
    using append_butlast_last_id [OF assms(1)] concat_append [of "butlast gs" "[last gs]"]
    by simp
  then show ?thesis
    using length_concat_uniform [OF assms(2)] by simp
qed

lemma groups_count:
  assumes "0 < n" "gs \<noteq> []" "\<forall>g \<in> set (butlast gs). length g = n"
    "0 < length (last gs)" "length (last gs) \<le> n"
  shows "length gs = (length (concat gs) + n - 1) div n"
    and "length (last gs) = (if length (concat gs) mod n \<noteq> 0 then length (concat gs) mod n else n)"
proof -
  define m where "m = length gs - 1"
  define r where "r = length (last gs)"
  have L: "length (concat gs) = m * n + r"
    using groups_length_concat [OF assms(2,3)] by (simp add: m_def r_def)
  have r: "0 < r" "r \<le> n" using assms(4,5) by (simp_all add: r_def)
  have m: "length gs = Suc m" using assms(2) by (simp add: m_def)
  obtain r' where r': "r = Suc r'"
    using r(1) by (cases r) auto
  have "(m * n + r + n - 1) div n = (r' + n + m * n) div n"
    by (simp add: r' ac_simps)
  also have "\<dots> = m + (r' + n) div n"
    using assms(1) by simp
  also have "(r' + n) div n = 1"
    using assms(1) r(2) by (intro div_nat_eqI) (simp_all add: r')
  finally have "(m * n + r + n - 1) div n = Suc m"
    by simp
  then have "(length (concat gs) + n - 1) div n = Suc m"
    by (simp add: L)
  with m show "length gs = (length (concat gs) + n - 1) div n"
    by simp
  show "length (last gs) = (if length (concat gs) mod n \<noteq> 0 then length (concat gs) mod n else n)"
  proof (cases "r = n")
    case True
    then show ?thesis using L by (simp add: r_def [symmetric])
  next
    case False
    with r have "r < n" by simp
    then show ?thesis using L r by (simp add: r_def [symmetric])
  qed
qed

lemma nth_butlast_set: "i < length gs - 1 \<Longrightarrow> gs ! i \<in> set (butlast gs)"
  by (metis length_butlast nth_butlast nth_mem)

text \<open>
  C4: for every size \<open>n \<ge> 1\<close> and every list source of length \<open>L\<close>, \<^verbatim>\<open>chunk(n)\<close>
  emits \<open>\<lceil>L / n\<rceil>\<close> groups (\<open>(L + n - 1) div n\<close>), which are consecutive items of the
  source (their concatenation is the source); every group but the last has exactly \<open>n\<close>
  elements, and the last has \<open>L mod n\<close> elements when that is non-zero and \<open>n\<close> otherwise.
\<close>

theorem chunk_groups:
  assumes "1 \<le> n"
  shows "\<exists>gs. result (chunk (arrayGenerator xs) (int n)) = Inr gs
          \<and> concat gs = xs
          \<and> length gs = (length xs + n - 1) div n
          \<and> (\<forall>i < length gs - 1. length (gs ! i) = n)
          \<and> (gs \<noteq> [] \<longrightarrow>
                length (last gs) = (if length xs mod n \<noteq> 0 then length xs mod n else n))"
proof -
  from assms have n: "0 < n" by simp
  from chunk_loop_groups [of n "[]" xs] n obtain gs where gs:
    "chunk_loop (int n) [] (arrayGenerator xs) = arrayGenerator gs"
    "concat gs = xs" "\<forall>g \<in> set (butlast gs). length g = n"
    "gs \<noteq> [] \<longrightarrow> 0 < length (last gs) \<and> length (last gs) \<le> n"
    by auto
  have res: "result (chunk (arrayGenerator xs) (int n)) = Inr gs"
    by (simp add: chunk_def gs(1) result_arrayGenerator)
  have count: "length gs = (length xs + n - 1) div n"
  proof (cases "gs = []")
    case True
    with gs(2) n show ?thesis by simp
  next
    case False
    with groups_count(1) [OF n False gs(3)] gs(2,4) show ?thesis by simp
  qed
  have full: "\<forall>i < length gs - 1. length (gs ! i) = n"
    using gs(3) nth_butlast_set by blast
  have rest: "gs \<noteq> [] \<longrightarrow>
      length (last gs) = (if length xs mod n \<noteq> 0 then length xs mod n else n)"
  proof
    assume ne: "gs \<noteq> []"
    with groups_count(2) [OF n ne gs(3)] gs(2,4) show
      "length (last gs) = (if length xs mod n \<noteq> 0 then length xs mod n else n)"
      by simp
  qed
  from res gs(2) count full rest show ?thesis by blast
qed

theorem chunk_groups_witness:
  "(1::nat) \<le> 2
   \<and> (\<exists>gs. result (chunk (arrayGenerator [1, 2, 3, 4, 5 :: int]) (int 2)) = Inr gs
          \<and> concat gs = [1, 2, 3, 4, 5]
          \<and> length gs = 3
          \<and> length (gs ! 0) = 2 \<and> length (gs ! 1) = 2
          \<and> length (last gs) = 1)"
proof -
  have h: "(1::nat) \<le> 2" by simp
  from chunk_groups [OF h, of "[1, 2, 3, 4, 5 :: int]"] obtain gs where gs:
    "result (chunk (arrayGenerator [1, 2, 3, 4, 5 :: int]) (int 2)) = Inr gs"
    "concat gs = [1, 2, 3, 4, 5]"
    "length gs = (length [1, 2, 3, 4, 5 :: int] + 2 - 1) div 2"
    "\<forall>i < length gs - 1. length (gs ! i) = 2"
    "gs \<noteq> [] \<longrightarrow> length (last gs)
       = (if length [1, 2, 3, 4, 5 :: int] mod 2 \<noteq> 0 then length [1, 2, 3, 4, 5 :: int] mod 2 else 2)"
    by blast
  from gs(3) have len: "length gs = 3" by simp
  then have "gs \<noteq> []" by auto
  with gs(5) have "length (last gs) = 1" by simp
  moreover from gs(4) len have "length (gs ! 0) = 2" "length (gs ! 1) = 2" by simp_all
  ultimately show ?thesis using h gs(1,2) len by blast
qed

lemma chunk_example: "result (chunk (arrayGenerator [1, 2, 3, 4, 5 :: int]) 2) = Inr [[1, 2], [3, 4], [5]]"
  by (simp add: chunk_def result_def)

text \<open>
  With a size below 1 the test \<^verbatim>\<open>buffer.length === size\<close> never succeeds, since the
  buffer holds at least one item when it is tested; the whole source ends up in the
  buffer, which is emitted at the end when it is non-empty.
\<close>

lemma chunk_loop_nonpositive:
  "sz < 1 \<Longrightarrow> chunk_loop sz buffer (arrayGenerator xs)
      = (if buffer @ xs = [] then Done else Yield (buffer @ xs) Done)"
  by (induction xs arbitrary: buffer) (simp_all add: Let_def)

text \<open>
  C5 (as the code has it): a chunk stage with a size below 1 raises no error, neither when
  it is built nor when it is drained. Over a list source it emits nothing while the source
  lasts and then, when the source is non-empty, the whole source as one single group.
\<close>

theorem chunk_nonpositive_no_error:
  "sz < 1 \<Longrightarrow>
     result (chunk (arrayGenerator xs) sz) = Inr (if xs = [] then [] else [xs])"
  by (simp add: chunk_def chunk_loop_nonpositive result_def)

theorem chunk_nonpositive_no_error_witness:
  "(0::int) < 1 \<and> result (chunk (arrayGenerator [1, 2, 3 :: int]) 0) = Inr [[1, 2, 3]]"
  using chunk_nonpositive_no_error [of 0 "[1, 2, 3 :: int]"] by simp

text \<open>
  Draining \<^verbatim>\<open>chunk(0)\<close> and \<^verbatim>\<open>chunk(-1)\<close> over \<open>[1,2,3]\<close> is not rejected: it returns
  the one group \<open>[1,2,3]\<close>.
\<close>

theorem chunk_zero_size_counterexample:
  "result (chunk (arrayGenerator [1, 2, 3 :: int]) 0) = Inr [[1, 2, 3]]
   \<and> result (chunk (arrayGenerator [1, 2, 3 :: int]) (- 1)) = Inr [[1, 2, 3]]"
  by (simp add: chunk_def result_def)

section \<open>take\<close>

text \<open>
  For a count \<open>k \<ge> 1\<close> the loop stops right after the \<open>k\<close>-th push, and leaves the rest
  of the source unpulled.
\<close>

lemma take_loop_positive:
  "0 < k \<Longrightarrow> length res < k \<Longrightarrow>
     take_loop (int k) res (arrayGenerator xs)
       = Inr (res @ take (k - length res) xs, arrayGenerator (drop (k - length res) xs))"
proof (induction xs arbitrary: res)
  case Nil
  then show ?case by simp
next
  case (Cons x xs)
  show ?case
  proof (cases "Suc (length res) = k")
    case True
    then show ?thesis by (auto simp: Let_def)
  next
    case False
    with Cons.prems have lt: "length (res @ [x]) < k" by simp
    have "k - length res = Suc (k - length (res @ [x]))"
      using lt by simp
    with False Cons.IH [OF Cons.prems(1) lt] show ?thesis
      by (simp add: Let_def)
  qed
qed

text \<open>
  For a count below 1 the test \<^verbatim>\<open>res.length === count\<close> comes after the push, when the
  length is at least 1: the loop never breaks and drains the source.
\<close>

lemma take_loop_nonpositive:
  "count < 1 \<Longrightarrow> take_loop count res (arrayGenerator xs) = Inr (res @ xs, Done)"
  by (induction xs arbitrary: res) (simp_all add: Let_def)

lemma take_positive:
  "0 < k \<Longrightarrow> result (take_gen (arrayGenerator xs) (int k)) = Inr (take k xs)
     \<and> length (take k xs) = min k (length xs)
     \<and> take_unpulled (arrayGenerator xs) (int k) = Inr (arrayGenerator (drop k xs))"
  by (simp add: take_gen_def take_unpulled_def take_loop_positive result_arrayGenerator)

lemma take_nonpositive:
  "count < 1 \<Longrightarrow> result (take_gen (arrayGenerator xs) count) = Inr xs
     \<and> take_unpulled (arrayGenerator xs) count = Inr Done"
  by (simp add: take_gen_def take_unpulled_def take_loop_nonpositive result_arrayGenerator)

text \<open>
  C3: \<^verbatim>\<open>take(k)\<close> followed by \<^verbatim>\<open>result()\<close> should return the first \<open>min(k, L)\<close> items,
  hence nothing for a zero or negative count, and pull no item beyond the first \<open>k\<close>.
  The code does so for \<open>k \<ge> 1\<close> (\<open>take_positive\<close>), but \<^verbatim>\<open>take(0)\<close> and \<^verbatim>\<open>take(-2)\<close>
  over \<open>[1,2,3]\<close> return all three items, and the source is pulled to its end.
\<close>

theorem take_zero_returns_everything:
  "result (take_gen (arrayGenerator [1, 2, 3 :: int]) 0) = Inr [1, 2, 3]
   \<and> take_unpulled (arrayGenerator [1, 2, 3 :: int]) 0 = Inr Done
   \<and> result (take_gen (arrayGenerator [1, 2, 3 :: int]) (- 2)) = Inr [1, 2, 3]"
  by (simp add: take_gen_def take_unpulled_def result_def)

section \<open>unique\<close>

lemma upt_0_Suc_map: "[0..<Suc n] = 0 # map Suc [0..<n]"
  by (simp add: upt_conv_Cons map_Suc_upt del: upt_Suc)

lemma arrayGenerator_inject [simp]: "arrayGenerator xs = arrayGenerator ys \<longleftrightarrow> xs = ys"
proof (induction xs arbitrary: ys)
  case Nil
  then show ?case by (cases ys) simp_all
next
  case (Cons x xs)
  then show ?case by (cases ys) simp_all
qed

text \<open>SameValueZero is an equivalence on the values.\<close>

lemma number_sameValueZero_iff:
  "number_sameValueZero x y \<longleftrightarrow> x = y \<or> (x = PosZero \<and> y = NegZero) \<or> (x = NegZero \<and> y = PosZero)"
  by (cases "(x, y)" rule: number_sameValueZero.cases) auto

lemma sameValueZero_iff:
  "sameValueZero x y \<longleftrightarrow>
     x = y \<or> (x = Number PosZero \<and> y = Number NegZero) \<or> (x = Number NegZero \<and> y = Number PosZero)"
  by (cases "(x, y)" rule: sameValueZero.cases) (auto simp: number_sameValueZero_iff)

lemma sameValueZero_refl: "sameValueZero x x"
  by (simp add: sameValueZero_iff)

lemma sameValueZero_sym: "sameValueZero x y \<Longrightarrow> sameValueZero y x"
  by (auto simp: sameValueZero_iff)

lemma sameValueZero_trans: "sameValueZero x y \<Longrightarrow> sameValueZero y z \<Longrightarrow> sameValueZero x z"
  by (auto simp: sameValueZero_iff)

lemma sameValueZero_stored:
  "sameValueZero (if x = Number NegZero then Number PosZero else x) v \<longleftrightarrow> sameValueZero x v"
  by (auto simp: sameValueZero_iff)

lemma set_has_iff: "set_has S v \<longleftrightarrow> (\<exists>e \<in> set S. sameValueZero e v)"
  by (simp add: set_has_def list_ex_iff)

lemma set_has_closed: "set_has S x \<Longrightarrow> sameValueZero x v \<Longrightarrow> set_has S v"
  by (auto simp: set_has_iff intro: sameValueZero_trans)

lemma set_has_add:
  "\<not> set_has S x \<Longrightarrow> set_has (set_add S x) v \<longleftrightarrow> set_has S v \<or> sameValueZero x v"
  by (auto simp: set_add_def set_has_iff sameValueZero_stored)

text \<open>
  With the values seen before the loop started in \<open>pre\<close>, and a set that has exactly the
  values that are the same as one of them, the loop emits the items that are not the same
  value as an item of \<open>pre\<close> or as an earlier item.
\<close>

lemma unique_loop_first_occurrences:
  assumes "\<And>v. set_has res v \<longleftrightarrow> list_ex (\<lambda>p. sameValueZero p v) pre"
  shows "unique_loop res (arrayGenerator xs)
     = arrayGenerator (map ((!) xs)
         (filter (\<lambda>i. \<not> list_ex (\<lambda>p. sameValueZero p (xs ! i)) (pre @ take i xs))
            [0..<length xs]))"
  using assms
proof (induction xs arbitrary: res pre)
  case Nil
  then show ?case by simp
next
  case (Cons x xs)
  have idx: "[0..<length (x # xs)] = 0 # map Suc [0..<length xs]"
    using upt_0_Suc_map [of "length xs"] by simp
  have seen: "set_has res x \<longleftrightarrow> list_ex (\<lambda>p. sameValueZero p x) pre"
    by (rule Cons.prems)
  show ?case
  proof (cases "set_has res x")
    case True
    have inv: "set_has res v \<longleftrightarrow> list_ex (\<lambda>p. sameValueZero p v) (pre @ [x])" for v
      using Cons.prems [of v] set_has_closed [OF True, of v] by (auto simp: list_ex_iff)
    from True seen show ?thesis
      unfolding idx by (simp add: Cons.IH [OF inv] filter_map o_def del: upt_Suc)
  next
    case False
    have inv: "set_has (set_add res x) v \<longleftrightarrow> list_ex (\<lambda>p. sameValueZero p v) (pre @ [x])" for v
      using Cons.prems [of v] by (auto simp: set_has_add [OF False] list_ex_iff)
    from False seen show ?thesis
      unfolding idx by (simp add: Cons.IH [OF inv] filter_map o_def del: upt_Suc)
  qed
qed

text \<open>
  How often a value occurs in the output, up to SameValueZero: never when the set has it
  already, otherwise once when it occurs in the input and never when it does not.
\<close>

lemma unique_loop_once:
  "\<exists>ys. unique_loop res (arrayGenerator xs) = arrayGenerator ys
     \<and> (\<forall>v. length (filter (sameValueZero v) ys)
            = (if \<not> set_has res v \<and> list_ex (sameValueZero v) xs then 1 else 0))"
proof (induction xs arbitrary: res)
  case Nil
  show ?case by (intro exI [of _ "[]"]) simp
next
  case (Cons x xs)
  show ?case
  proof (cases "set_has res x")
    case True
    from Cons.IH [of res] obtain ys where ys:
      "unique_loop res (arrayGenerator xs) = arrayGenerator ys"
      "\<And>v. length (filter (sameValueZero v) ys)
            = (if \<not> set_has res v \<and> list_ex (sameValueZero v) xs then 1 else 0)"
      by blast
    have "sameValueZero v x \<longrightarrow> set_has res v" for v
      using set_has_closed [OF True, of v] sameValueZero_sym [of v x] by blast
    with True ys show ?thesis
      by (intro exI [of _ ys]) auto
  next
    case False
    from Cons.IH [of "set_add res x"] obtain ys where ys:
      "unique_loop (set_add res x) (arrayGenerator xs) = arrayGenerator ys"
      "\<And>v. length (filter (sameValueZero v) ys)
            = (if \<not> set_has (set_add res x) v \<and> list_ex (sameValueZero v) xs then 1 else 0)"
      by blast
    have no: "sameValueZero v x \<longrightarrow> \<not> set_has res v" for v
      using set_has_closed [of res v x] False by blast
    have sym: "sameValueZero x v \<longleftrightarrow> sameValueZero v x" for v
      using sameValueZero_sym by blast
    from False ys(1) have "unique_loop res (arrayGenerator (x # xs)) = arrayGenerator (x # ys)"
      by simp
    moreover have "length (filter (sameValueZero v) (x # ys))
        = (if \<not> set_has res v \<and> list_ex (sameValueZero v) (x # xs) then 1 else 0)" for v
      using ys(2) [of v] no [of v]
      by (auto simp: set_has_add [OF False] sym split: if_splits)
    ultimately show ?thesis by blast
  qed
qed

text \<open>
  C7: for every input sequence of values, \<^verbatim>\<open>unique()\<close> emits each distinct value exactly
  once, at the position of its first occurrence, and drops all later duplicates. Values
  are distinct when the \<^verbatim>\<open>Set\<close> of the code tells them apart (SameValueZero: primitive
  values by what they are, arrays and objects by identity). The output is the input
  restricted to the positions whose item is not the same value as an earlier item, and
  every value of the input occurs in it exactly once, values that are not in the input
  never. For \<open>[1,2,1,3,2]\<close> the output is \<open>[1,2,3]\<close>; a reference that comes twice is
  emitted once, and two different references are both emitted.
\<close>

theorem unique_first_occurrences:
  "(\<exists>ys. result (unique (arrayGenerator xs)) = Inr ys
        \<and> ys = map ((!) xs)
                 (filter (\<lambda>i. \<not> list_ex (\<lambda>p. sameValueZero p (xs ! i)) (take i xs))
                    [0..<length xs])
        \<and> (\<forall>v. length (filter (sameValueZero v) ys)
               = (if list_ex (sameValueZero v) xs then 1 else 0)))
   \<and> result (unique (arrayGenerator
        [Number (Finite 1), Number (Finite 2), Number (Finite 1), Number (Finite 3),
         Number (Finite 2)]))
       = Inr [Number (Finite 1), Number (Finite 2), Number (Finite 3)]
   \<and> result (unique (arrayGenerator [Reference 0, Reference 1, Reference 0]))
       = Inr [Reference 0, Reference 1]
   \<and> result (unique (arrayGenerator
        [Number NegZero, String ''a'', Number PosZero, Number NaN, String ''a'', Number NaN]))
       = Inr [Number NegZero, String ''a'', Number NaN]"
proof (intro conjI)
  obtain ys where ys: "unique_loop [] (arrayGenerator xs) = arrayGenerator ys"
    "\<And>v. length (filter (sameValueZero v) ys)
          = (if \<not> set_has [] v \<and> list_ex (sameValueZero v) xs then 1 else 0)"
    using unique_loop_once [of "[]" xs] by blast
  have empty: "set_has [] v \<longleftrightarrow> list_ex (\<lambda>p. sameValueZero p v) []" for v
    by (simp add: set_has_def)
  have "ys = map ((!) xs)
      (filter (\<lambda>i. \<not> list_ex (\<lambda>p. sameValueZero p (xs ! i)) (take i xs)) [0..<length xs])"
    using ys(1) unique_loop_first_occurrences [of "[]" "[]" xs, OF empty] by simp
  moreover have "\<forall>v. length (filter (sameValueZero v) ys)
      = (if list_ex (sameValueZero v) xs then 1 else 0)"
    using ys(2) by (simp add: set_has_def)
  ultimately show "\<exists>ys. result (unique (arrayGenerator xs)) = Inr ys
        \<and> ys = map ((!) xs)
                 (filter (\<lambda>i. \<not> list_ex (\<lambda>p. sameValueZero p (xs ! i)) (take i xs))
                    [0..<length xs])
        \<and> (\<forall>v. length (filter (sameValueZero v) ys)
               = (if list_ex (sameValueZero v) xs then 1 else 0))"
    using ys(1) by (simp add: unique_def result_arrayGenerator)
  show "result (unique (arrayGenerator
        [Number (Finite 1), Number (Finite 2), Number (Finite 1), Number (Finite 3),
         Number (Finite 2)]))
       = Inr [Number (Finite 1), Number (Finite 2), Number (Finite 3)]"
    by (simp add: unique_def result_def set_has_def set_add_def)
  show "result (unique (arrayGenerator [Reference 0, Reference 1, Reference 0]))
       = Inr [Reference 0, Reference 1]"
    by (simp add: unique_def result_def set_has_def set_add_def)
  show "result (unique (arrayGenerator
        [Number NegZero, String ''a'', Number PosZero, Number NaN, String ''a'', Number NaN]))
       = Inr [Number NegZero, String ''a'', Number NaN]"
    by (simp add: unique_def result_def set_has_def set_add_def)
qed

section \<open>collect and join\<close>

lemma collect_loop_arrayGenerator:
  "collect_loop res (arrayGenerator xs) = Yield (res @ xs) Done"
  by (induction xs arbitrary: res) simp_all

lemma join_loop_arrayGenerator:
  "join_loop res separator (arrayGenerator xs) = Yield (array_join (res @ xs) separator) Done"
  by (induction xs arbitrary: res) simp_all

lemma result_Yield_Done: "result (Yield x Done) = Inr [x]"
  by (simp add: result_def)

lemma result_loop_append:
  "result_loop res g = (case result_loop [] g of Inl e \<Rightarrow> Inl e | Inr ys \<Rightarrow> Inr (res @ ys))"
proof (induction g arbitrary: res)
  case Done
  then show ?case by simp
next
  case (Yield x g)
  show ?case
    using Yield [of "res @ [x]"] Yield [of "[x]"] by (simp split: sum.splits)
next
  case (Throw e)
  then show ?case by simp
qed

lemma result_Yield:
  "result (Yield x g) = (case result g of Inl e \<Rightarrow> Inl e | Inr ys \<Rightarrow> Inr (x # ys))"
  using result_loop_append [of "[x]" g] by (simp add: result_def split: sum.split)

lemma collect_loop_any:
  "result (collect_loop res g)
     = (case result g of Inl e \<Rightarrow> Inl e | Inr ys \<Rightarrow> Inr [res @ ys])"
proof (induction g arbitrary: res)
  case Done
  then show ?case by (simp add: result_def)
next
  case (Yield x g)
  then show ?case by (simp add: result_Yield split: sum.split)
next
  case (Throw e)
  then show ?case by (simp add: result_def)
qed

lemma join_loop_any:
  "result (join_loop res separator g)
     = (case result g of Inl e \<Rightarrow> Inl e | Inr ys \<Rightarrow> Inr [array_join (res @ ys) separator])"
proof (induction g arbitrary: res)
  case Done
  then show ?case by (simp add: result_def)
next
  case (Yield x g)
  then show ?case by (simp add: result_Yield split: sum.split)
next
  case (Throw e)
  then show ?case by (simp add: result_def)
qed

text \<open>
  C10: over every list source, the empty one included, \<^verbatim>\<open>collect()\<close> emits exactly one
  item, the list of all source items in order, and \<^verbatim>\<open>join(separator)\<close> emits exactly one
  string; for the empty source these are the empty list and the empty string. Neither
  emits zero items: in general, whenever draining the upstream returns a list, draining the
  aggregator returns exactly one item made from that list (and an upstream that fails
  with an error makes the aggregator fail with it).
\<close>

theorem collect_join_emit_one_item:
  "result (collect (arrayGenerator xs)) = Inr [xs]
   \<and> result (join (arrayGenerator ss) separator)
       = Inr [array_join ss (case separator of None \<Rightarrow> '''' | Some s \<Rightarrow> s)]
   \<and> result (collect (arrayGenerator ([] :: 'a list))) = Inr [[]]
   \<and> result (join (arrayGenerator []) separator) = Inr ['''']
   \<and> result (collect g) = map_sum id (\<lambda>ys. [ys]) (result g)
   \<and> result (join sg separator)
       = map_sum id (\<lambda>ys. [array_join ys (case separator of None \<Rightarrow> '''' | Some s \<Rightarrow> s)])
           (result sg)"
proof (intro conjI)
  show "result (collect (arrayGenerator xs)) = Inr [xs]"
    by (simp add: collect_def collect_loop_arrayGenerator result_Yield_Done)
  show "result (join (arrayGenerator ss) separator)
       = Inr [array_join ss (case separator of None \<Rightarrow> '''' | Some s \<Rightarrow> s)]"
    by (simp add: join_def join_loop_arrayGenerator result_Yield_Done)
  show "result (collect (arrayGenerator ([] :: 'a list))) = Inr [[]]"
    by (simp add: collect_def result_Yield_Done)
  show "result (join (arrayGenerator []) separator) = Inr ['''']"
    by (simp add: join_def result_Yield_Done)
  show "result (collect g) = map_sum id (\<lambda>ys. [ys]) (result g)"
    by (simp add: collect_def collect_loop_any split: sum.split)
  show "result (join sg separator)
       = map_sum id (\<lambda>ys. [array_join ys (case separator of None \<Rightarrow> '''' | Some s \<Rightarrow> s)])
           (result sg)"
    by (simp add: join_def join_loop_any split: sum.split)
qed

section \<open>Chaining on the facade\<close>

lemma call_returns_this: "snd (call T c this h) = this"
  by (simp add: call_def assign_generator_def)

lemma call_heap:
  "fst (call T c this h) = h[this := (h ! this)\<lparr>generator := wrapped T c (generator (h ! this))\<rparr>]"
  by (simp add: call_def assign_generator_def)




section \<open>map under an error policy\<close>

lemma map_policy_skip:
  "map_policy (arrayGenerator xs) fn (Some skip_policy)
     = arrayGenerator (List.map_filter (\<lambda>x. case fn x of Inl e \<Rightarrow> None | Inr v \<Rightarrow> Some v) xs)"
  by (induction xs) (simp_all add: consult_def skip_policy_def List.map_filter_simps split: sum.split)

lemma map_policy_none:
  "result (map_policy (arrayGenerator xs) fn None)
     = (case find (\<lambda>x. isl (fn x)) xs of
          None \<Rightarrow> Inr (map (\<lambda>x. projr (fn x)) xs)
        | Some x \<Rightarrow> Inl (projl (fn x)))"
proof (induction xs)
  case Nil
  then show ?case by (simp add: result_def)
next
  case (Cons x xs)
  show ?case
  proof (cases "fn x")
    case (Inl e)
    then show ?thesis by (simp add: consult_def result_def)
  next
    case (Inr v)
    with Cons show ?thesis by (simp add: result_Yield split: option.splits)
  qed
qed

lemma map_policy_none_is_map_gen: "map_policy g fn None = map_gen g fn"
  by (induction g) (simp_all add: consult_def split: sum.split)

text \<open>
  C2: for every input list and every callback \<open>fn\<close>, \<^verbatim>\<open>map\<close> guarded by a skip policy drops
  the items on which \<open>fn\<close> throws and emits the results of all other items, in order; with
  a callback that throws on even inputs, \<open>[1,2,3,4]\<close> yields \<open>[f 1, f 3]\<close>. With no policy the
  first failure of the callback is the outcome of the drain (nothing is returned), which is
  also what the \<^verbatim>\<open>map\<close> of \<^verbatim>\<open>index.ts\<close>, which has no policy, does.
\<close>

theorem map_skip_policy_drops_failures:
  "result (map_policy (arrayGenerator xs) fn (Some skip_policy))
     = Inr (List.map_filter (\<lambda>x. case fn x of Inl e \<Rightarrow> None | Inr v \<Rightarrow> Some v) xs)
   \<and> result (map_policy (arrayGenerator [1, 2, 3, 4 :: int])
              (\<lambda>n. if even n then Inl (Thrown ''even'') else Inr (f n)) (Some skip_policy))
       = Inr [f 1, f 3]
   \<and> result (map_policy (arrayGenerator xs) fn None)
       = (case find (\<lambda>x. isl (fn x)) xs of
            None \<Rightarrow> Inr (map (\<lambda>x. projr (fn x)) xs)
          | Some x \<Rightarrow> Inl (projl (fn x)))
   \<and> result (map_policy (arrayGenerator [1, 2, 3, 4 :: int])
              (\<lambda>n. if even n then Inl (Thrown ''even'') else Inr (f n)) None)
       = Inl (Thrown ''even'')
   \<and> map_policy (arrayGenerator xs) fn None = map_gen (arrayGenerator xs) fn"
proof (intro conjI)
  show "result (map_policy (arrayGenerator xs) fn (Some skip_policy))
     = Inr (List.map_filter (\<lambda>x. case fn x of Inl e \<Rightarrow> None | Inr v \<Rightarrow> Some v) xs)"
    by (simp add: map_policy_skip result_arrayGenerator)
  show "result (map_policy (arrayGenerator [1, 2, 3, 4 :: int])
              (\<lambda>n. if even n then Inl (Thrown ''even'') else Inr (f n)) (Some skip_policy))
       = Inr [f 1, f 3]"
    by (simp only: map_policy_skip result_arrayGenerator) (simp add: List.map_filter_simps)
  show "result (map_policy (arrayGenerator xs) fn None)
       = (case find (\<lambda>x. isl (fn x)) xs of
            None \<Rightarrow> Inr (map (\<lambda>x. projr (fn x)) xs)
          | Some x \<Rightarrow> Inl (projl (fn x)))"
    by (rule map_policy_none)
  show "result (map_policy (arrayGenerator [1, 2, 3, 4 :: int])
              (\<lambda>n. if even n then Inl (Thrown ''even'') else Inr (f n)) None)
       = Inl (Thrown ''even'')"
    by (simp only: map_policy_none) simp
  show "map_policy (arrayGenerator xs) fn None = map_gen (arrayGenerator xs) fn"
    by (rule map_policy_none_is_map_gen)
qed

section \<open>groupBy\<close>

text \<open>
  As long as no record has a key that \<^verbatim>\<open>Object.prototype\<close> defines, both grouping functions
  build the expected mapping.
\<close>

lemma groupBy_fn_safe:
  assumes "to_property_key (field x) \<notin> set object_prototype_keys"
  shows "groupBy_fn field acc x
     = Inr (acc(to_property_key (field x) \<mapsto>
              (case acc (to_property_key (field x)) of None \<Rightarrow> [] | Some items \<Rightarrow> items) @ [x]))"
  using assms by (simp add: groupBy_fn_def get_property_def Let_def split: option.split)

lemma reduce_fn_loop_groupBy:
  assumes "\<forall>x \<in> set xs. to_property_key (field x) \<notin> set object_prototype_keys"
  shows "reduce_fn_loop (groupBy_fn field) acc (arrayGenerator xs)
     = Yield (\<lambda>k. if k \<in> dom acc \<union> set (map (\<lambda>x. to_property_key (field x)) xs)
                  then Some ((case acc k of None \<Rightarrow> [] | Some items \<Rightarrow> items)
                             @ filter (\<lambda>x. to_property_key (field x) = k) xs)
                  else None) Done"
  using assms
proof (induction xs arbitrary: acc)
  case Nil
  show ?case
    by simp (rule ext, auto split: option.split)
next
  case (Cons x xs)
  let ?k = "to_property_key (field x)"
  let ?acc = "acc(?k \<mapsto> (case acc ?k of None \<Rightarrow> [] | Some items \<Rightarrow> items) @ [x])"
  have step: "groupBy_fn field acc x = Inr ?acc"
    using Cons.prems by (simp add: groupBy_fn_safe)
  have rest: "\<forall>x \<in> set xs. to_property_key (field x) \<notin> set object_prototype_keys"
    using Cons.prems by simp
  show ?case
    unfolding arrayGenerator.simps reduce_fn_loop.simps step sum.case Cons.IH [OF rest]
    by (rule arg_cong [where f = "\<lambda>m. Yield m Done"], rule ext) (auto split: option.split)
qed

lemma groupBy_safe:
  assumes "\<forall>x \<in> set xs. to_property_key (field x) \<notin> set object_prototype_keys"
  shows "result (groupBy (arrayGenerator xs) field) = Inr [grouping field xs]"
proof -
  have "(\<lambda>k. if k \<in> dom (Map.empty :: 'a groups) \<union> set (map (\<lambda>x. to_property_key (field x)) xs)
             then Some ((case (Map.empty :: 'a groups) k of None \<Rightarrow> [] | Some items \<Rightarrow> items)
                        @ filter (\<lambda>x. to_property_key (field x) = k) xs)
             else None) = grouping field xs"
    unfolding grouping_def by (rule ext) simp
  then show ?thesis
    by (simp only: groupBy_def reduce_fn_def reduce_fn_loop_groupBy [OF assms] result_Yield_Done)
qed

lemma reduce_loop_safe:
  assumes "\<forall>x \<in> set xs. to_property_key (field x) \<notin> set object_prototype_keys"
  shows "reduce_loop field False acc (arrayGenerator xs)
     = Yield (\<lambda>k. if k \<in> dom acc \<union> set (map (\<lambda>x. to_property_key (field x)) xs)
                  then Some ((case acc k of None \<Rightarrow> [] | Some items \<Rightarrow> items)
                             @ filter (\<lambda>x. to_property_key (field x) = k) xs)
                  else None) Done"
  using assms
proof (induction xs arbitrary: acc)
  case Nil
  show ?case
    by simp (rule ext, auto split: option.split)
next
  case (Cons x xs)
  let ?k = "to_property_key (field x)"
  have safe: "?k \<notin> set object_prototype_keys"
    using Cons.prems by simp
  have rest: "\<forall>x \<in> set xs. to_property_key (field x) \<notin> set object_prototype_keys"
    using Cons.prems by simp
  show ?case
  proof (cases "acc ?k")
    case None
    with safe have "get_property acc ?k = Absent"
      by (simp add: get_property_def)
    then show ?thesis
      unfolding arrayGenerator.simps reduce_loop.simps Let_def
      apply (simp only: simp_thms if_False if_True Cons.IH [OF rest])
      apply (rule arg_cong [where f = "\<lambda>m. Yield m Done"], rule ext)
      using None apply (auto split: option.split)
      done
  next
    case (Some items)
    then have "get_property acc ?k = Array items"
      by (simp add: get_property_def)
    then show ?thesis
      unfolding arrayGenerator.simps reduce_loop.simps Let_def
      apply (simp only: simp_thms if_False if_True property.simps Cons.IH [OF rest])
      apply (rule arg_cong [where f = "\<lambda>m. Yield m Done"], rule ext)
      using Some apply (auto split: option.split)
      done
  qed
qed

lemma reduce_safe:
  assumes "\<forall>x \<in> set xs. to_property_key (field x) \<notin> set object_prototype_keys"
  shows "result (reduce (arrayGenerator xs) field False) = Inr [grouping field xs]"
proof -
  have "(\<lambda>k. if k \<in> dom (Map.empty :: 'a groups) \<union> set (map (\<lambda>x. to_property_key (field x)) xs)
             then Some ((case (Map.empty :: 'a groups) k of None \<Rightarrow> [] | Some items \<Rightarrow> items)
                        @ filter (\<lambda>x. to_property_key (field x) = k) xs)
             else None) = grouping field xs"
    unfolding grouping_def by (rule ext) simp
  then show ?thesis
    by (simp only: reduce_def reduce_loop_safe [OF assms] result_Yield_Done)
qed

lemma groupBy_example:
  "result (groupBy (arrayGenerator [(''x'', 1 :: int), (''y'', 2), (''x'', 3)]) (\<lambda>r. Key (fst r)))
     = Inr [[''x'' \<mapsto> [(''x'', 1), (''x'', 3)], ''y'' \<mapsto> [(''y'', 2)]]]"
  by (simp add: groupBy_def reduce_fn_def groupBy_fn_def get_property_def object_prototype_keys_def
      result_def Let_def fun_eq_iff)

text \<open>
  C8: \<^verbatim>\<open>groupBy(key)\<close> should emit, for every input sequence of records, the one mapping
  from each observed key to the records that share it. For the records \<open>{k:"x",v:1}\<close>,
  \<open>{k:"y",v:2}\<close>, \<open>{k:"x",v:3}\<close> it does (\<open>groupBy_example\<close>), and for every input whose
  keys are not properties of \<^verbatim>\<open>Object.prototype\<close> (\<open>groupBy_safe\<close>). On the single record
  \<open>{k:"toString",v:1}\<close> the expected mapping sends \<open>toString\<close> to that record, but
  \<^verbatim>\<open>acc["toString"]\<close> is the inherited function: \<^verbatim>\<open>!acc[k]\<close> is false, no array is stored and
  \<^verbatim>\<open>push\<close> fails. The draining pipeline ends in a TypeError instead of emitting a
  mapping; \<^verbatim>\<open>reduce\<close> of \<^verbatim>\<open>index.ts\<close> fails in the same way through \<^verbatim>\<open>value in acc\<close>.
\<close>

theorem groupBy_inherited_key_throws:
  "result (groupBy (arrayGenerator [(''toString'', 1 :: int)]) (\<lambda>r. Key (fst r)))
     = Inl (TypeError ''acc[k].push is not a function'')
   \<and> result (reduce (arrayGenerator [(''toString'', 1 :: int)]) (\<lambda>r. Key (fst r)) False)
     = Inl (TypeError ''acc[value].push is not a function'')
   \<and> grouping (\<lambda>r. Key (fst r)) [(''toString'', 1 :: int)] ''toString''
     = Some [(''toString'', 1)]"
  by (simp add: groupBy_def reduce_fn_def groupBy_fn_def reduce_def get_property_def
      object_prototype_keys_def result_def grouping_def Let_def)

section \<open>Forking\<close>

lemma filter_update_count:
  "h < length cs \<Longrightarrow>
     length (filter P (cs[h := v])) + (if P (cs ! h) then 1 else 0)
       = length (filter P cs) + (if P v then 1 else 0)"
proof (induction cs arbitrary: h)
  case Nil
  then show ?case by simp
next
  case (Cons c cs)
  show ?case
  proof (cases h)
    case 0
    then show ?thesis by simp
  next
    case (Suc h')
    with Cons.prems have "h' < length cs" by simp
    from Cons.IH [OF this] Suc show ?thesis by simp
  qed
qed

lemma pending_advance:
  assumes "h < length cs"
  shows "pending (cs[h := Suc (cs ! h)]) j = (if j = cs ! h then pending cs j - 1 else pending cs j)"
proof -
  note upd = filter_update_count [OF assms, of "\<lambda>c. c \<le> j" "Suc (cs ! h)"]
  consider "j < cs ! h" | "j = cs ! h" | "cs ! h < j" by linarith
  then show ?thesis
  proof cases
    case 1
    with upd show ?thesis by (simp add: pending_def)
  next
    case 2
    with upd show ?thesis by (simp add: pending_def)
  next
    case 3
    with upd show ?thesis by (simp add: pending_def)
  qed
qed

lemma pending_zero: "pending cs j = 0 \<Longrightarrow> c \<in> set cs \<Longrightarrow> j < c"
  by (auto simp: pending_def filter_empty_conv)

lemma pending_all: "\<forall>c \<in> set cs. c \<le> j \<Longrightarrow> pending cs j = length cs"
  by (simp add: pending_def)

lemma takeWhile_prefix_holds:
  assumes "j < length (takeWhile P xs)"
  shows "P (xs ! j)"
proof -
  have "takeWhile P xs ! j \<in> set (takeWhile P xs)"
    using assms by simp
  then have "P (takeWhile P xs ! j)"
    by (rule set_takeWhileD [THEN conjunct2])
  then show ?thesis
    using assms by (simp add: takeWhile_nth)
qed

lemma serve_inv:
  assumes inv: "fork_inv k xs st" and h: "h < k"
    and c: "evicted st \<le> cursors st ! h" "cursors st ! h < frontier st"
  shows "fst (serve h st) = Some (xs ! (cursors st ! h))"
    and "fork_inv k xs (snd (serve h st))"
    and "cursors (snd (serve h st)) = (cursors st)[h := Suc (cursors st ! h)]"
    and "exhausted (snd (serve h st)) = exhausted st"
proof -
  let ?cs = "cursors st" and ?e = "evicted st" and ?f = "frontier st"
  let ?c = "?cs ! h"
  let ?i = "?c - ?e"
  let ?cs' = "?cs[h := Suc ?c]"
  let ?g = "\<lambda>cs i. (xs ! i, pending cs i)"
  let ?zero = "\<lambda>s :: 'a \<times> nat. snd s = 0"
  from inv have len: "length ?cs = k"
    and sl: "slots st = map (?g ?cs) [?e..<?f]"
    and cur: "\<forall>c \<in> set ?cs. ?e \<le> c \<and> c \<le> ?f"
    and fr: "?f \<le> length xs" and up: "upstream st = drop ?f xs"
    and pl: "pulls st = map Some (take ?f xs) @ (if exhausted st then [None] else [])"
    and ex: "exhausted st \<longrightarrow> ?f = length xs"
    and rd: "readers st = None \<or> readers st = Some k"
    by (simp_all add: fork_inv_def)
  have hl: "h < length ?cs" using h len by simp
  have i: "?i < length (slots st)" "?e + ?i = ?c"
    using c by (simp_all add: sl)
  have idx: "[?e..<?f] ! ?i = ?c"
    using c nth_upt [of ?e ?i ?f] by simp
  have at: "slots st ! ?i = (xs ! ?c, pending ?cs ?c)"
    using c idx by (simp add: sl)
  define slots' where "slots' = (slots st)[?i := (fst (slots st ! ?i), snd (slots st ! ?i) - 1)]"
  have slots': "slots' = map (?g ?cs') [?e..<?f]"
  proof (rule nth_equalityI)
    show "length slots' = length (map (?g ?cs') [?e..<?f])"
      by (simp add: slots'_def sl)
  next
    fix j assume "j < length slots'"
    then have j: "j < ?f - ?e" by (simp add: slots'_def sl)
    show "slots' ! j = map (?g ?cs') [?e..<?f] ! j"
    proof (cases "j = ?i")
      case True
      with j i at show ?thesis
        by (simp add: slots'_def pending_advance [OF hl])
    next
      case False
      with c have "?e + j \<noteq> ?c" by auto
      with j False show ?thesis
        by (simp add: slots'_def sl pending_advance [OF hl])
    qed
  qed
  define t where "t = length (takeWhile ?zero slots')"
  have t: "t \<le> ?f - ?e"
    using length_takeWhile_le [of ?zero slots'] by (simp add: t_def slots')
  have "dropWhile ?zero slots' = drop t slots'"
    by (simp add: dropWhile_eq_drop t_def)
  also have "\<dots> = map (?g ?cs') [?e + t..<?f]"
    by (simp add: slots' drop_map)
  finally have dropped: "dropWhile ?zero slots' = map (?g ?cs') [?e + t..<?f]" .
  have st': "snd (serve h st)
      = st\<lparr>slots := map (?g ?cs') [?e + t..<?f], evicted := ?e + t, cursors := ?cs'\<rparr>"
    unfolding serve_def Let_def snd_conv slots'_def [symmetric] t_def [symmetric] dropped
    by simp
  show "fst (serve h st) = Some (xs ! ?c)"
    by (simp add: serve_def Let_def at)
  show "cursors (snd (serve h st)) = ?cs'"
    by (simp add: st')
  show "exhausted (snd (serve h st)) = exhausted st"
    by (simp add: st')
  have fr': "frontier (snd (serve h st)) = ?f"
    using t c by (simp add: st' frontier_def)
  have above: "?e + t \<le> c'" if "c' \<in> set ?cs'" for c'
  proof (cases t)
    case 0
    from that have "c' \<in> set ?cs \<or> c' = Suc ?c"
      using set_update_subset_insert [of ?cs h "Suc ?c"] by auto
    with cur c 0 show ?thesis by auto
  next
    case (Suc t')
    then have "t' < length (takeWhile ?zero slots')" by (simp add: t_def)
    then have "snd (slots' ! t') = 0" by (rule takeWhile_prefix_holds)
    moreover have "t' < ?f - ?e" using t Suc by simp
    ultimately have "pending ?cs' (?e + t') = 0" by (simp add: slots')
    from pending_zero [OF this that] Suc show ?thesis by simp
  qed
  have below: "c' \<le> ?f" if "c' \<in> set ?cs'" for c'
  proof -
    from that have "c' \<in> set ?cs \<or> c' = Suc ?c"
      using set_update_subset_insert [of ?cs h "Suc ?c"] by auto
    with cur c show ?thesis by auto
  qed
  show "fork_inv k xs (snd (serve h st))"
    unfolding fork_inv_def fr'
    using len fr up pl ex rd above below by (simp add: st')
qed

lemma extend_end_inv:
  assumes inv: "fork_inv k xs st" and f: "frontier st = length xs" and nx: "\<not> exhausted st"
  shows "exhausted (extend st)" and "fork_inv k xs (extend st)"
    and "cursors (extend st) = cursors st"
proof -
  from inv f have up: "upstream st = []"
    by (simp add: fork_inv_def)
  from inv have n: "(case readers st of None \<Rightarrow> length (cursors st) | Some n \<Rightarrow> n) = k"
    by (auto simp: fork_inv_def)
  have ext: "extend st = st\<lparr>pulls := pulls st @ [None], exhausted := True, readers := Some k\<rparr>"
    by (simp add: extend_def Let_def up n)
  show "exhausted (extend st)" "cursors (extend st) = cursors st"
    by (simp_all add: ext)
  show "fork_inv k xs (extend st)"
    using inv f nx by (simp add: ext fork_inv_def frontier_def)
qed

lemma extend_item_inv:
  assumes inv: "fork_inv k xs st" and f: "frontier st < length xs"
  shows "\<not> exhausted (extend st)" and "fork_inv k xs (extend st)"
    and "cursors (extend st) = cursors st"
    and "frontier (extend st) = Suc (frontier st)"
    and "evicted (extend st) = evicted st"
proof -
  let ?f = "frontier st" and ?e = "evicted st"
  from inv f have nx: "\<not> exhausted st"
    by (auto simp: fork_inv_def)
  from inv f have up: "upstream st = xs ! ?f # drop (Suc ?f) xs"
    by (simp add: fork_inv_def Cons_nth_drop_Suc)
  from inv have n: "(case readers st of None \<Rightarrow> length (cursors st) | Some n \<Rightarrow> n) = k"
    by (auto simp: fork_inv_def)
  have ext: "extend st = st\<lparr>upstream := drop (Suc ?f) xs, pulls := pulls st @ [Some (xs ! ?f)],
      slots := slots st @ [(xs ! ?f, k)], readers := Some k\<rparr>"
    by (simp add: extend_def Let_def up n)
  show "\<not> exhausted (extend st)" "cursors (extend st) = cursors st"
    "evicted (extend st) = evicted st"
    using nx by (simp_all add: ext)
  show fr: "frontier (extend st) = Suc ?f"
    by (simp add: ext frontier_def)
  from inv have all: "pending (cursors st) ?f = k"
    using pending_all [of "cursors st" ?f] by (simp add: fork_inv_def)
  have ef: "?e \<le> ?f"
    by (simp add: frontier_def)
  from inv have sl: "slots st = map (\<lambda>i. (xs ! i, pending (cursors st) i)) [?e..<?f]"
    by (simp add: fork_inv_def)
  have sl': "slots (extend st) = map (\<lambda>i. (xs ! i, pending (cursors st) i)) [?e..<Suc ?f]"
    using ef all by (simp add: ext sl)
  from inv nx f have pl: "pulls (extend st) = map Some (take (Suc ?f) xs)"
    by (simp add: ext fork_inv_def take_Suc_conv_app_nth)
  show "fork_inv k xs (extend st)"
    unfolding fork_inv_def fr sl' pl
    using inv nx f by (auto simp: ext fork_inv_def)
qed

lemma next_branch_item:
  assumes inv: "fork_inv k xs st" and h: "h < k" and c: "cursors st ! h < length xs"
  shows "fst (next_branch h st) = Some (xs ! (cursors st ! h))"
    and "fork_inv k xs (snd (next_branch h st))"
    and "cursors (snd (next_branch h st)) = (cursors st)[h := Suc (cursors st ! h)]"
proof -
  let ?c = "cursors st ! h"
  from inv h have hl: "h < length (cursors st)" and mem: "?c \<in> set (cursors st)"
    by (simp_all add: fork_inv_def)
  with inv have range: "evicted st \<le> ?c" "?c \<le> frontier st"
    by (auto simp: fork_inv_def)
  have "fst (next_branch h st) = Some (xs ! ?c)
      \<and> fork_inv k xs (snd (next_branch h st))
      \<and> cursors (snd (next_branch h st)) = (cursors st)[h := Suc ?c]"
  proof (cases "?c < frontier st")
    case True
    with hl range have "next_branch h st = serve h st"
      by (simp add: next_branch_def)
    with serve_inv(1-3) [OF inv h range(1) True] show ?thesis by simp
  next
    case False
    with range have at: "?c = frontier st" by simp
    with c have f: "frontier st < length xs" by simp
    with inv have nx: "\<not> exhausted st" by (auto simp: fork_inv_def)
    note e = extend_item_inv [OF inv f]
    from hl at nx e(1) have nb: "next_branch h st = serve h (extend st)"
      by (simp add: next_branch_def)
    have "evicted (extend st) \<le> cursors (extend st) ! h"
      "cursors (extend st) ! h < frontier (extend st)"
      using range at by (simp_all add: e)
    from serve_inv(1-3) [OF e(2) h this] show ?thesis
      by (simp add: nb e)
  qed
  then show "fst (next_branch h st) = Some (xs ! ?c)"
    and "fork_inv k xs (snd (next_branch h st))"
    and "cursors (snd (next_branch h st)) = (cursors st)[h := Suc ?c]"
    by simp_all
qed

lemma next_branch_end:
  assumes inv: "fork_inv k xs st" and h: "h < k" and c: "cursors st ! h = length xs"
  shows "fst (next_branch h st) = None"
    and "fork_inv k xs (snd (next_branch h st))"
    and "cursors (snd (next_branch h st)) = cursors st"
    and "exhausted (snd (next_branch h st))"
proof -
  from inv h have hl: "h < length (cursors st)" and mem: "cursors st ! h \<in> set (cursors st)"
    by (simp_all add: fork_inv_def)
  with inv c have f: "frontier st = length xs"
    by (auto simp: fork_inv_def)
  have "fst (next_branch h st) = None \<and> fork_inv k xs (snd (next_branch h st))
      \<and> cursors (snd (next_branch h st)) = cursors st \<and> exhausted (snd (next_branch h st))"
  proof (cases "exhausted st")
    case True
    with hl c f inv show ?thesis by (simp add: next_branch_def)
  next
    case False
    note e = extend_end_inv [OF inv f False]
    from hl c f False e(1) have "next_branch h st = (None, extend st)"
      by (simp add: next_branch_def)
    with e show ?thesis by simp
  qed
  then show "fst (next_branch h st) = None"
    and "fork_inv k xs (snd (next_branch h st))"
    and "cursors (snd (next_branch h st)) = cursors st"
    and "exhausted (snd (next_branch h st))"
    by simp_all
qed

lemma result_branch_loop_inv:
  assumes "fork_inv k xs st" "h < k"
  shows "fst (result_branch_loop h res st) = res @ drop (cursors st ! h) xs
     \<and> fork_inv k xs (snd (result_branch_loop h res st))
     \<and> cursors (snd (result_branch_loop h res st)) = (cursors st)[h := length xs]
     \<and> exhausted (snd (result_branch_loop h res st))"
  using assms
proof (induction "length xs - cursors st ! h" arbitrary: st res)
  case 0
  from 0 have hl: "h < length (cursors st)" by (simp add: fork_inv_def)
  with 0 have "cursors st ! h \<le> frontier st" "frontier st \<le> length xs"
    by (auto simp: fork_inv_def)
  with 0 have c: "cursors st ! h = length xs" by simp
  note e = next_branch_end [OF "0.prems" c]
  obtain st' where nb: "next_branch h st = (None, st')"
    using e(1) by (cases "next_branch h st") auto
  have upd: "(cursors st)[h := length xs] = cursors st"
    using c [symmetric] by simp
  show ?case
    using e nb c upd by (subst (1 2 3 4) result_branch_loop.simps) simp
next
  case (Suc d)
  then have c: "cursors st ! h < length xs" by simp
  from Suc have hl: "h < length (cursors st)" by (simp add: fork_inv_def)
  note e = next_branch_item [OF Suc.prems c]
  obtain st' where nb: "next_branch h st = (Some (xs ! (cursors st ! h)), st')"
    using e(1) by (cases "next_branch h st") auto
  with e have inv': "fork_inv k xs st'"
    and cs': "cursors st' = (cursors st)[h := Suc (cursors st ! h)]"
    by simp_all
  have c': "cursors st' ! h = Suc (cursors st ! h)"
    using hl by (simp add: cs')
  have d: "d = length xs - cursors st' ! h"
    using Suc.hyps(2) c' by simp
  note IH = Suc.hyps(1) [OF d inv' Suc.prems(2), of "res @ [xs ! (cursors st ! h)]"]
  have step: "result_branch_loop h res st
      = result_branch_loop h (res @ [xs ! (cursors st ! h)]) st'"
    by (subst result_branch_loop.simps) (simp add: nb)
  have "drop (cursors st ! h) xs = xs ! (cursors st ! h) # drop (Suc (cursors st ! h)) xs"
    using c by (simp add: Cons_nth_drop_Suc)
  with IH hl show ?case
    by (simp add: step c' cs')
qed

lemma drain_branches_inv:
  assumes "fork_inv k xs st" "distinct order" "\<forall>h \<in> set order. h < k \<and> cursors st ! h = 0"
  shows "fst (drain_branches order st) = replicate (length order) xs
     \<and> fork_inv k xs (snd (drain_branches order st))
     \<and> (order \<noteq> [] \<longrightarrow> exhausted (snd (drain_branches order st)))"
  using assms
proof (induction order arbitrary: st)
  case Nil
  then show ?case by simp
next
  case (Cons h hs)
  from Cons.prems have h: "h < k" "cursors st ! h = 0" by simp_all
  obtain res st' where r: "result_branch_loop h [] st = (res, st')"
    by (cases "result_branch_loop h [] st")
  with result_branch_loop_inv [OF Cons.prems(1) h(1), of "[]"] h(2)
  have res: "res = xs" and inv': "fork_inv k xs st'"
    and cs': "cursors st' = (cursors st)[h := length xs]" and ex': "exhausted st'"
    by simp_all
  have others: "\<forall>h' \<in> set hs. h' < k \<and> cursors st' ! h' = 0"
  proof
    fix h' assume m: "h' \<in> set hs"
    with Cons.prems(2) have "h' \<noteq> h" by auto
    with m Cons.prems(3) show "h' < k \<and> cursors st' ! h' = 0"
      by (simp add: cs')
  qed
  from Cons.prems(2) have "distinct hs" by simp
  note IH = Cons.IH [OF inv' this others]
  show ?case
  proof (cases "hs = []")
    case True
    with r res inv' ex' show ?thesis by simp
  next
    case False
    with IH r res show ?thesis by (simp add: split_beta)
  qed
qed

lemma fork_cached:
  "forkedGenerator c = Some st \<Longrightarrow>
     fork c = (length (cursors st),
               c\<lparr>forkedGenerator := Some (st\<lparr>cursors := cursors st @ [evicted st]\<rparr>)\<rparr>)"
  by (simp add: fork_def forkable_fork_def)

lemma fork_times_cached:
  "forkedGenerator c = Some st \<Longrightarrow>
     fork_times k c
       = ([length (cursors st)..<length (cursors st) + k],
          c\<lparr>forkedGenerator := Some (st\<lparr>cursors := cursors st @ replicate k (evicted st)\<rparr>)\<rparr>)"
proof (induction k arbitrary: c st)
  case 0
  then have "c\<lparr>forkedGenerator := Some st\<rparr> = c" by simp
  with 0 show ?case by simp
next
  case (Suc k)
  let ?st = "st\<lparr>cursors := cursors st @ [evicted st]\<rparr>"
  let ?c = "c\<lparr>forkedGenerator := Some ?st\<rparr>"
  have cached: "forkedGenerator ?c = Some ?st" by simp
  show ?case
    by (simp add: fork_cached [OF Suc.prems] Suc.IH [OF cached] upt_conv_Cons
        replicate_app_Cons_same del: upt_Suc)
qed

lemma fork_times_fresh:
  "fst (fork_times k \<lparr>generator = xs, forkedGenerator = None\<rparr>) = [0..<k]
   \<and> forked k xs = (createForkableGenerator xs)\<lparr>cursors := replicate k 0\<rparr>"
proof (cases k)
  case 0
  then show ?thesis by (simp add: forked_def createForkableGenerator_def)
next
  case (Suc k')
  let ?st = "(createForkableGenerator xs)\<lparr>cursors := [0]\<rparr>"
  let ?c = "\<lparr>generator = xs, forkedGenerator = Some ?st\<rparr>"
  have first: "fork \<lparr>generator = xs, forkedGenerator = None\<rparr> = (0, ?c)"
    by (simp add: fork_def forkable_fork_def createForkableGenerator_def)
  have cached: "forkedGenerator ?c = Some ?st" by simp
  show ?thesis
    unfolding Suc forked_def fork_times.simps first prod.case fork_times_cached [OF cached]
    by (simp add: createForkableGenerator_def upt_conv_Cons del: upt_Suc)
qed

lemma forked_inv: "fork_inv k xs (forked k xs)"
  by (simp add: fork_times_fresh fork_inv_def createForkableGenerator_def frontier_def)

lemma pull_schedule_inv:
  assumes "fork_inv k xs st" "set sched \<subseteq> {..<k}" "h < k"
  shows "fork_inv k xs (snd (pull_schedule sched st))
     \<and> take (cursors st ! h) xs @ received h (fst (pull_schedule sched st))
         = take (cursors (snd (pull_schedule sched st)) ! h) xs"
  using assms(1,2)
proof (induction sched arbitrary: st)
  case Nil
  then show ?case by simp
next
  case (Cons g sched)
  from Cons.prems have g: "g < k" by simp
  from Cons.prems have lens: "length (cursors st) = k"
    by (simp add: fork_inv_def)
  with g have "cursors st ! g \<in> set (cursors st)" by simp
  with Cons.prems(1) have "cursors st ! g \<le> frontier st" "frontier st \<le> length xs"
    by (auto simp: fork_inv_def)
  then have range: "cursors st ! g \<le> length xs" by simp
  obtain r st' where nb: "next_branch g st = (r, st')"
    by (cases "next_branch g st")
  from Cons.prems have sub: "set sched \<subseteq> {..<k}" by simp
  show ?case
  proof (cases "cursors st ! g < length xs")
    case True
    from next_branch_item [OF Cons.prems(1) g True] nb
    have r: "r = Some (xs ! (cursors st ! g))" and inv': "fork_inv k xs st'"
      and cs': "cursors st' = (cursors st)[g := Suc (cursors st ! g)]"
      by simp_all
    note IH = Cons.IH [OF inv' sub]
    show ?thesis
    proof (cases "g = h")
      case same: True
      then have hg: "h = g" by simp
      have "take (Suc (cursors st ! g)) xs = take (cursors st ! g) xs @ [xs ! (cursors st ! g)]"
        using True by (simp add: take_Suc_conv_app_nth)
      with IH [unfolded hg] lens g show ?thesis
        unfolding hg by (simp add: nb r cs' split_beta)
    next
      case False
      with IH show ?thesis
        by (simp add: nb r cs' split_beta)
    qed
  next
    case False
    with range have "cursors st ! g = length xs" by simp
    from next_branch_end [OF Cons.prems(1) g this] nb
    have r: "r = None" and inv': "fork_inv k xs st'" and cs': "cursors st' = cursors st"
      by simp_all
    from Cons.IH [OF inv' sub] show ?thesis
      by (simp add: nb r cs' split_beta)
  qed
qed

text \<open>
  However the pulls of the branches were interleaved before, \<^verbatim>\<open>result()\<close> on a branch
  returns what is left for it: what the branch has received and what the drain returns
  are together the source.
\<close>

lemma interleaved_pulls_then_result:
  assumes "set sched \<subseteq> {..<k}" "h < k"
  shows "received h (fst (pull_schedule sched (forked k xs)))
           @ fst (result_branch_loop h [] (snd (pull_schedule sched (forked k xs)))) = xs"
proof -
  let ?st = "snd (pull_schedule sched (forked k xs))"
  from pull_schedule_inv [OF forked_inv assms, of xs]
  have inv: "fork_inv k xs ?st"
    and got: "received h (fst (pull_schedule sched (forked k xs))) = take (cursors ?st ! h) xs"
    using assms(2) by (simp_all add: fork_times_fresh)
  from result_branch_loop_inv [OF inv assms(2), of "[]"] got show ?thesis
    by simp
qed

text \<open>
  C1: for any source sequence \<open>xs\<close>, when \<^verbatim>\<open>fork()\<close> is called \<open>k\<close> times on a facade before
  any branch is consumed, the branches are \<open>k\<close> distinct handles, and draining any of them
  with \<^verbatim>\<open>result()\<close>, one after another in any order, returns for each branch the complete
  sequence \<open>xs\<close> in the original order. The log of the pulls made on the source is then
  every item of \<open>xs\<close> exactly once, in order, followed by the one pull that finds the end:
  once per item, not once per branch per item.
\<close>

theorem fork_branches_replay_source:
  assumes "distinct order" "set order \<subseteq> {..<k}"
  shows "fst (fork_times k \<lparr>generator = xs, forkedGenerator = None\<rparr>) = [0..<k]
     \<and> fst (drain_branches order (forked k xs)) = replicate (length order) xs
     \<and> pulls (snd (drain_branches order (forked k xs)))
         = (if order = [] then [] else map Some xs @ [None])"
proof -
  have start: "\<forall>h \<in> set order. h < k \<and> cursors (forked k xs) ! h = 0"
    using assms(2) by (auto simp: fork_times_fresh)
  note d = drain_branches_inv [OF forked_inv assms(1) start]
  have "pulls (snd (drain_branches order (forked k xs)))
      = (if order = [] then [] else map Some xs @ [None])"
  proof (cases "order = []")
    case True
    then show ?thesis
      by (simp add: fork_times_fresh createForkableGenerator_def)
  next
    case False
    with d have "exhausted (snd (drain_branches order (forked k xs)))"
      and "fork_inv k xs (snd (drain_branches order (forked k xs)))"
      by simp_all
    with False show ?thesis by (simp add: fork_inv_def)
  qed
  with d show ?thesis by (simp add: fork_times_fresh)
qed

theorem fork_branches_replay_source_witness:
  "distinct [0, 1 :: nat] \<and> set [0, 1 :: nat] \<subseteq> {..<2}
   \<and> fst (fork_times 2 \<lparr>generator = [1, 2, 3, 4, 5 :: int], forkedGenerator = None\<rparr>) = [0, 1]
   \<and> fst (drain_branches [0, 1] (forked 2 [1, 2, 3, 4, 5 :: int]))
       = [[1, 2, 3, 4, 5], [1, 2, 3, 4, 5]]
   \<and> pulls (snd (drain_branches [0, 1] (forked 2 [1, 2, 3, 4, 5 :: int])))
       = [Some 1, Some 2, Some 3, Some 4, Some 5, None]"
proof -
  have h: "distinct [0, 1 :: nat]" "set [0, 1 :: nat] \<subseteq> {..<2}"
    by simp_all
  have "[0..<2] = [0, 1 :: nat]"
    by (simp add: upt_conv_Cons)
  with fork_branches_replay_source [OF h, of "[1, 2, 3, 4, 5 :: int]"] h show ?thesis
    by (simp add: numeral_2_eq_2)
qed

end
